theory Spec2Isabelle
  imports Complex_Main "HOL-Library.List_Lexorder" "HOL-Library.Char_ord"
begin

section \<open>JavaScript maps and sets\<close>

text \<open>
  A JavaScript \<open>Map\<close> iterates in insertion order and holds each key once. It is modelled
  as an association list whose operations keep the keys distinct: \<open>jsmap_set\<close> overwrites
  the value of a key that is present in place and appends a new key at the end,
  \<open>jsmap_delete\<close> removes the key. A JavaScript \<open>Set\<close> is a list without repetition, in
  insertion order.
\<close>

type_synonym ('k, 'v) jsmap = "('k \<times> 'v) list"

definition jsmap_get :: "('k, 'v) jsmap \<Rightarrow> 'k \<Rightarrow> 'v option" where
  "jsmap_get m k = map_of m k"

definition jsmap_has :: "('k, 'v) jsmap \<Rightarrow> 'k \<Rightarrow> bool" where
  "jsmap_has m k = (k \<in> set (map fst m))"

definition jsmap_delete :: "'k \<Rightarrow> ('k, 'v) jsmap \<Rightarrow> ('k, 'v) jsmap" where
  "jsmap_delete k m = filter (\<lambda>kv. fst kv \<noteq> k) m"

fun jsmap_set :: "'k \<Rightarrow> 'v \<Rightarrow> ('k, 'v) jsmap \<Rightarrow> ('k, 'v) jsmap" where
  "jsmap_set k v [] = [(k, v)]"
| "jsmap_set k v (kv # m) = (if fst kv = k then (k, v) # m else kv # jsmap_set k v m)"

definition jsset_add :: "'a \<Rightarrow> 'a list \<Rightarrow> 'a list" where
  "jsset_add x s = (if x \<in> set s then s else s @ [x])"


section \<open>JavaScript strings\<close>

text \<open>
  A string is the list of its code units, each below 256 as an Isabelle character is.
  The functions below are the string methods the sources call, on that representation.
\<close>

definition startsWith :: "string \<Rightarrow> string \<Rightarrow> bool" where
  "startsWith s p = (take (length p) s = p)"

definition endsWith :: "string \<Rightarrow> string \<Rightarrow> bool" where
  "endsWith s p = (length p \<le> length s \<and> drop (length s - length p) s = p)"

text \<open>\<open>s.replace(pat, rep)\<close> with a string pattern replaces the first occurrence only.\<close>

fun js_replace_first :: "string \<Rightarrow> string \<Rightarrow> string \<Rightarrow> string" where
  "js_replace_first pat rep [] = (if pat = [] then rep else [])"
| "js_replace_first pat rep (c # s) =
     (if startsWith (c # s) pat then rep @ drop (length pat) (c # s)
      else c # js_replace_first pat rep s)"

fun js_split :: "char \<Rightarrow> string \<Rightarrow> string list" where
  "js_split d [] = [[]]"
| "js_split d (c # s) =
     (if c = d then [] # js_split d s
      else (case js_split d s of [] \<Rightarrow> [[c]] | x # xs \<Rightarrow> (c # x) # xs))"

definition isWhiteSpace :: "char \<Rightarrow> bool" where
  "isWhiteSpace c = (c \<in> set [CHR 0x09, CHR 0x0A, CHR 0x0B, CHR 0x0C, CHR 0x0D, CHR 0x20, CHR 0xA0])"

definition js_trim :: "string \<Rightarrow> string" where
  "js_trim s = rev (dropWhile isWhiteSpace (rev (dropWhile isWhiteSpace s)))"

definition toLowerCase :: "string \<Rightarrow> string" where
  "toLowerCase s =
     map (\<lambda>c. if (CHR ''A'' \<le> c \<and> c \<le> CHR ''Z'')
                  \<or> (CHR 0xC0 \<le> c \<and> c \<le> CHR 0xDE \<and> c \<noteq> CHR 0xD7)
               then char_of (of_char c + (32::nat)) else c) s"

text \<open>\<open>FileUtils.ensureMarkdownExtension\<close> (file-utils.ts).\<close>

definition ensureMarkdownExtension :: "string \<Rightarrow> string" where
  "ensureMarkdownExtension filePath =
     (if \<not> endsWith filePath ''.md'' then filePath @ ''.md'' else filePath)"


section \<open>The environment: Node's libraries and the vault\<close>

text \<open>
  A thrown JavaScript error is a value: its name and its message. \<open>String(error)\<close> prints
  both.
\<close>

datatype jserror = JSError (err_name: string) (err_message: string)

definition error_toString :: "jserror \<Rightarrow> string" where
  "error_toString e = err_name e @ '': '' @ err_message e"

definition typeError :: "string \<Rightarrow> jserror" where
  "typeError msg = JSError ''TypeError'' msg"

text \<open>
  The values that gray-matter parses from a YAML block. The interface \<open>Frontmatter\<close> of
  types/obsidian.ts declares \<open>title\<close> a string and \<open>tags\<close> a string or a list of strings,
  but \<open>parsed.data as Frontmatter\<close> is a cast that checks nothing, so the parser meets
  whatever YAML gave: \<open>null\<close>, a boolean, a string, a sequence, a mapping, or another
  value (a number, a date, a binary), of which the code asks only whether it is truthy
  and what its \<open>toString()\<close> returns; \<open>FmOther\<close> holds these two.
\<close>

datatype fmvalue =
    FmNull
  | FmBool bool
  | FmStr string
  | FmOther bool string
  | FmList "fmvalue list"
  | FmObject "(string \<times> fmvalue) list"

type_synonym Frontmatter = "(string, fmvalue) jsmap"

fun truthy :: "fmvalue \<Rightarrow> bool" where
  "truthy FmNull = False"
| "truthy (FmBool b) = b"
| "truthy (FmStr s) = (s \<noteq> [])"
| "truthy (FmOther t s) = t"
| "truthy (FmList vs) = True"
| "truthy (FmObject m) = True"

text \<open>
  Reading the property \<open>tags\<close> or \<open>title\<close>, which no prototype defines: a TypeError on
  \<open>null\<close>, the entry of a mapping, and \<open>undefined\<close> (here \<open>None\<close>) on anything else.
\<close>

definition nullPropertyError :: "string \<Rightarrow> jserror" where
  "nullPropertyError name =
     typeError (''Cannot read properties of null (reading '' @ [CHR 0x27] @ name @ [CHR 0x27] @ '')'')"

definition getProperty :: "fmvalue \<Rightarrow> string \<Rightarrow> jserror + fmvalue option" where
  "getProperty v name =
     (case v of
        FmNull \<Rightarrow> Inl (nullPropertyError name)
      | FmObject m \<Rightarrow> Inr (jsmap_get m name)
      | _ \<Rightarrow> Inr None)"

text \<open>The first error of a sequence of results, or all the values.\<close>

fun collect :: "(jserror + 'a) list \<Rightarrow> jserror + 'a list" where
  "collect [] = Inr []"
| "collect (x # xs) =
     (case x of
        Inl e \<Rightarrow> Inl e
      | Inr v \<Rightarrow> (case collect xs of Inl e \<Rightarrow> Inl e | Inr vs \<Rightarrow> Inr (v # vs)))"

fun js_join :: "string \<Rightarrow> string list \<Rightarrow> string" where
  "js_join sep [] = []"
| "js_join sep [x] = x"
| "js_join sep (x # y # r) = x @ sep @ js_join sep (y # r)"

text \<open>
  The text of a value as an element of \<open>Array.prototype.join\<close>, which is what the
  \<open>toString\<close> of a sequence calls: \<open>null\<close> gives the empty text, a mapping gives
  \<open>[object Object]\<close> unless it has an entry \<open>toString\<close> of its own, which YAML cannot make
  a function. \<open>callToString\<close> is the method call \<open>tag.toString()\<close>, which \<open>null\<close> does not
  have.
\<close>

fun elementText :: "fmvalue \<Rightarrow> jserror + string" where
  "elementText FmNull = Inr []"
| "elementText (FmBool b) = Inr (if b then ''true'' else ''false'')"
| "elementText (FmStr s) = Inr s"
| "elementText (FmOther t s) = Inr s"
| "elementText (FmList vs) =
     (case collect (map elementText vs) of
        Inl e \<Rightarrow> Inl e
      | Inr texts \<Rightarrow> Inr (js_join '','' texts))"
| "elementText (FmObject m) =
     (if jsmap_has m ''toString''
      then Inl (typeError ''Cannot convert object to primitive value'')
      else Inr ''[object Object]'')"

definition callToString :: "fmvalue \<Rightarrow> jserror + string" where
  "callToString tag =
     (case tag of
        FmNull \<Rightarrow> Inl (nullPropertyError ''toString'')
      | FmObject m \<Rightarrow>
          (if jsmap_has m ''toString'' then Inl (typeError ''tag.toString is not a function'')
           else Inr ''[object Object]'')
      | _ \<Rightarrow> elementText tag)"

text \<open>
  The functions of Node's \<open>path\<close> module and of the gray-matter package that the sources
  call are parameters of the model: they are libraries, not code of the repository.
  \<open>matter\<close> throws on a malformed YAML block. It keeps a cache of the contents it has
  been given, which it fills before it parses, so that what it answers for a content can
  depend on the calls before: it takes the contents of the earlier calls, in order, and
  then the content.
\<close>

record nodelib =
  path_dirname :: "string \<Rightarrow> string"
  path_join :: "string \<Rightarrow> string \<Rightarrow> string"
  path_normalize :: "string \<Rightarrow> string"
  path_basename :: "string \<Rightarrow> string \<Rightarrow> string"
  matter :: "string list \<Rightarrow> string \<Rightarrow> jserror + (fmvalue \<times> string)"
  matter_stringify :: "string \<Rightarrow> Frontmatter \<Rightarrow> string"

text \<open>
  The vault is what the file system answers: the sorted listing of
  \<open>listMarkdownFiles\<close>, the content or the error of a read, and for the duplicate scan
  the size that \<open>stat\<close> reports and the SHA-256 digest of the file's bytes.
\<close>

record vault =
  files :: "string list"
  disk :: "string \<Rightarrow> jserror + string"
  stat_size :: "string \<Rightarrow> jserror + int"
  sha256 :: "string \<Rightarrow> jserror + string"

text \<open>
  \<open>FileUtils.readFile\<close> normalises the path and reads it. Its optional content cache
  only answers with a content that an earlier read stored, so the read is a function of
  the vault.
\<close>

definition readFile :: "vault \<Rightarrow> string \<Rightarrow> jserror + string" where
  "readFile V filePath = disk V (ensureMarkdownExtension filePath)"


section \<open>The document parser (src/utils/obsidian-parser.ts)\<close>

text \<open>
  \<open>ObsidianParser\<close> has no field of its own. Its state is that of the gray-matter module
  it calls: the contents that the module has been given so far.
\<close>

record ObsidianParser =
  matterCalls :: "string list"

definition parseFrontmatter ::
  "nodelib \<Rightarrow> string \<Rightarrow> ObsidianParser \<Rightarrow> (jserror + (fmvalue \<times> string)) \<times> ObsidianParser" where
  "parseFrontmatter L content p =
     (matter L (matterCalls p) content, p\<lparr>matterCalls := matterCalls p @ [content]\<rparr>)"

definition stringifyWithFrontmatter :: "nodelib \<Rightarrow> Frontmatter \<Rightarrow> string \<Rightarrow> string" where
  "stringifyWithFrontmatter L frontmatter content =
     (if length (map fst frontmatter) = 0 then content
      else matter_stringify L content frontmatter)"

datatype linktype = Wiki | Markdown | External

record NoteLink =
  link_type :: linktype
  target :: string
  displayText :: "string option"
  pos_start :: nat
  pos_end :: nat

text \<open>
  \<open>/\[\[([^\]]+)\]\]/\<close> at the start of \<open>s\<close>: two opening brackets, the longest run of
  characters other than a closing bracket, not empty, and two closing brackets. The run
  cannot give characters back, since the character after it has to be a closing
  bracket. The result is the captured group and the length of the match.
\<close>

definition wikiMatch :: "string \<Rightarrow> (string \<times> nat) option" where
  "wikiMatch s =
     (if startsWith s ''[['' then
        let r = drop 2 s;
            inner = takeWhile (\<lambda>c. c \<noteq> CHR '']'') r;
            rest = dropWhile (\<lambda>c. c \<noteq> CHR '']'') r
        in if inner \<noteq> [] \<and> startsWith rest '']]'' then Some (inner, length inner + 4) else None
      else None)"

text \<open>The \<open>exec\<close> loop of a global regex: the leftmost match from \<open>lastIndex\<close> on.\<close>

function wikiScan :: "nat \<Rightarrow> string \<Rightarrow> NoteLink list" where
  "wikiScan pos s =
     (if s = [] then []
      else case wikiMatch s of
             Some (fullMatch, n) \<Rightarrow>
               (let parts = map js_trim (js_split CHR ''|'' fullMatch)
                in \<lparr>link_type = Wiki,
                    target = (case parts of [] \<Rightarrow> [] | t # _ \<Rightarrow> t),
                    displayText = (case parts of _ # d # _ \<Rightarrow> Some d | _ \<Rightarrow> None),
                    pos_start = pos, pos_end = pos + n\<rparr>)
               # wikiScan (pos + n) (drop n s)
           | None \<Rightarrow> wikiScan (pos + 1) (tl s))"
  by pat_completeness auto
termination
  by (relation "measure (\<lambda>(pos, s). length s)")
     (auto simp: wikiMatch_def Let_def split: if_splits)

definition extractWikiLinks :: "string \<Rightarrow> NoteLink list" where
  "extractWikiLinks content = wikiScan 0 content"

text \<open>
  \<open>/\[([^\]]*)\]\(([^)]+)\)/\<close> at the start of \<open>s\<close>: the display text, the target and the
  length of the match.
\<close>

definition mdMatch :: "string \<Rightarrow> (string \<times> string \<times> nat) option" where
  "mdMatch s =
     (if startsWith s ''['' then
        let r = drop 1 s;
            text = takeWhile (\<lambda>c. c \<noteq> CHR '']'') r;
            r1 = dropWhile (\<lambda>c. c \<noteq> CHR '']'') r
        in if startsWith r1 ''](''  then
             let r2 = drop 2 r1;
                 tgt = takeWhile (\<lambda>c. c \<noteq> CHR '')'') r2;
                 r3 = dropWhile (\<lambda>c. c \<noteq> CHR '')'') r2
             in if tgt \<noteq> [] \<and> startsWith r3 '')''
                then Some (text, tgt, length text + length tgt + 4) else None
           else None
      else None)"

function mdScan :: "nat \<Rightarrow> string \<Rightarrow> NoteLink list" where
  "mdScan pos s =
     (if s = [] then []
      else case mdMatch s of
             Some (text, tgt, n) \<Rightarrow>
               \<lparr>link_type = (if startsWith tgt ''http://'' \<or> startsWith tgt ''https://''
                             then External else Markdown),
                target = tgt, displayText = Some text,
                pos_start = pos, pos_end = pos + n\<rparr>
               # mdScan (pos + n) (drop n s)
           | None \<Rightarrow> mdScan (pos + 1) (tl s))"
  by pat_completeness auto
termination
  by (relation "measure (\<lambda>(pos, s). length s)")
     (auto simp: mdMatch_def Let_def split: if_splits)

definition extractMarkdownLinks :: "string \<Rightarrow> NoteLink list" where
  "extractMarkdownLinks content = mdScan 0 content"

text \<open>The sort by start position is stable, as \<open>Array.prototype.sort\<close> is.\<close>

definition extractAllLinks :: "string \<Rightarrow> NoteLink list" where
  "extractAllLinks content =
     sort_key pos_start (extractWikiLinks content @ extractMarkdownLinks content)"

definition isTagChar :: "char \<Rightarrow> bool" where
  "isTagChar c =
     ((CHR ''a'' \<le> c \<and> c \<le> CHR ''z'') \<or> (CHR ''A'' \<le> c \<and> c \<le> CHR ''Z'')
      \<or> (CHR ''0'' \<le> c \<and> c \<le> CHR ''9'') \<or> c = CHR ''_'' \<or> c = CHR ''-'' \<or> c = CHR ''/'')"

text \<open>\<open>content.match(/#[a-zA-Z0-9_\-\/]+/g)\<close>: every match, left to right.\<close>

function tagScan :: "string \<Rightarrow> string list" where
  "tagScan s =
     (if s = [] then []
      else if hd s = CHR ''#'' \<and> takeWhile isTagChar (tl s) \<noteq> []
      then (CHR ''#'' # takeWhile isTagChar (tl s)) # tagScan (dropWhile isTagChar (tl s))
      else tagScan (tl s))"
  by pat_completeness auto
termination
  by (relation "measure length")
     (auto simp: less_Suc_eq_le length_dropWhile_le intro: le_less_trans [OF length_dropWhile_le])

text \<open>
  \<open>extractTags\<close>. The array \<open>fmTags\<close> is the truthy \<open>tags\<close> value, or the list of it alone
  when it is not a sequence. \<open>forEach\<close> calls \<open>toString()\<close> on every element in turn, so
  the first element without one ends the call with a TypeError; the set is local, and
  what was added before is lost with it.
\<close>

definition extractTags :: "string \<Rightarrow> fmvalue \<Rightarrow> jserror + string list" where
  "extractTags content frontmatter =
     (case getProperty frontmatter ''tags'' of
        Inl e \<Rightarrow> Inl e
      | Inr tagsValue \<Rightarrow>
          (let fmTags = (case tagsValue of
                           None \<Rightarrow> []
                         | Some v \<Rightarrow>
                             if truthy v then (case v of FmList ts \<Rightarrow> ts | _ \<Rightarrow> [v]) else [])
           in case collect (map callToString fmTags) of
                Inl e \<Rightarrow> Inl e
              | Inr texts \<Rightarrow>
                  (let fromFrontmatter =
                         map (\<lambda>tag. js_trim (if startsWith tag ''#'' then drop 1 tag else tag)) texts;
                       fromContent = map (\<lambda>tag. js_trim (drop 1 tag)) (tagScan content);
                       tags = fold (\<lambda>cleaned tags.
                                      if cleaned \<noteq> [] then jsset_add cleaned tags else tags)
                                   (fromFrontmatter @ fromContent) []
                   in Inr (sort tags))))"

text \<open>
  \<open>getNoteTitle\<close> returns \<open>frontmatter.title\<close> itself when it is truthy, whatever kind of
  value it is, and otherwise the file name without its first \<open>.md\<close>.
\<close>

definition getNoteTitle :: "fmvalue \<Rightarrow> string \<Rightarrow> jserror + fmvalue" where
  "getNoteTitle frontmatter filePath =
     (case getProperty frontmatter ''title'' of
        Inl e \<Rightarrow> Inl e
      | Inr title \<Rightarrow>
          (let popped = last (js_split CHR ''/'' filePath);
               basename = (if popped \<noteq> [] then popped else filePath);
               fromFileName = FmStr (js_replace_first ''.md'' [] basename)
           in case title of
                None \<Rightarrow> Inr fromFileName
              | Some v \<Rightarrow> Inr (if truthy v then v else fromFileName)))"


section \<open>The link graph (src/utils/link-parser.ts)\<close>

record GraphNode =
  node_id :: string
  node_path :: string
  node_title :: fmvalue
  node_links :: nat
  node_backlinks :: nat
  node_tags :: "string list"

record GraphEdge =
  edge_source :: string
  edge_target :: string
  edge_type :: linktype

record GraphData =
  nodes :: "GraphNode list"
  edges :: "GraphEdge list"
  orphaned :: "string list"
  hubs :: "string list"

text \<open>
  The two private maps of the class, from a document to a set of documents, and its
  parser object.
\<close>

record LinkParser =
  linkCache :: "(string, string list) jsmap"
  backlinkCache :: "(string, string list) jsmap"
  parser :: ObsidianParser

text \<open>
  \<open>resolveLink\<close> is declared to return a string or null; each of its branches returns
  a string.
\<close>

definition resolveLink :: "nodelib \<Rightarrow> string \<Rightarrow> string \<Rightarrow> string" where
  "resolveLink L link fromFile =
     (let linkWithoutExt = (if endsWith link ''.md'' then take (length link - 3) link else link)
      in if startsWith linkWithoutExt ''/'' then drop 1 linkWithoutExt @ ''.md''
         else if CHR ''/'' \<in> set linkWithoutExt then
           (let fromDir = path_dirname L fromFile;
                resolved = path_join L fromDir linkWithoutExt
            in path_normalize L resolved @ ''.md'')
         else
           (let fromDir = path_dirname L fromFile
            in if fromDir = ''.'' then linkWithoutExt @ ''.md''
               else path_join L fromDir linkWithoutExt @ ''.md''))"

text \<open>
  The loop over the links of one document: the set of outgoing links and the edge list.
\<close>

fun processLinks ::
  "nodelib \<Rightarrow> string \<Rightarrow> NoteLink list \<Rightarrow> string list \<times> GraphEdge list \<Rightarrow> string list \<times> GraphEdge list"
where
  "processLinks L file [] acc = acc"
| "processLinks L file (link # links) (outgoingLinks, es) =
     (if link_type link = Wiki \<or> link_type link = Markdown then
        (let targetPath = resolveLink L (target link) file
         in if targetPath \<noteq> [] \<and> targetPath \<noteq> file
            then processLinks L file links
                   (jsset_add targetPath outgoingLinks,
                    es @ [\<lparr>edge_source = file, edge_target = targetPath, edge_type = link_type link\<rparr>])
            else processLinks L file links (outgoingLinks, es))
      else processLinks L file links (outgoingLinks, es))"

text \<open>
  The first pass. The loop has no \<open>try\<close>: a read, a parse, an \<open>extractTags\<close> or a
  \<open>getNoteTitle\<close> that throws leaves it at once, and the result is the error and what
  the maps and the parser held at that moment.
\<close>

fun firstPass ::
  "nodelib \<Rightarrow> vault \<Rightarrow> string list
   \<Rightarrow> (string, GraphNode) jsmap \<times> GraphEdge list \<times> (string, string list) jsmap \<times> ObsidianParser
   \<Rightarrow> jserror option \<times> (string, GraphNode) jsmap \<times> GraphEdge list
       \<times> (string, string list) jsmap \<times> ObsidianParser"
where
  "firstPass L V [] acc = (None, acc)"
| "firstPass L V (file # fs) (ns, es, lc, p) =
     (case readFile V file of
        Inl e \<Rightarrow> (Some e, ns, es, lc, p)
      | Inr content \<Rightarrow>
          (case parseFrontmatter L content p of
             (Inl e, p') \<Rightarrow> (Some e, ns, es, lc, p')
           | (Inr (frontmatter, body), p') \<Rightarrow>
               (let links = extractAllLinks content
                in case extractTags content frontmatter of
                     Inl e \<Rightarrow> (Some e, ns, es, lc, p')
                   | Inr tags \<Rightarrow>
                       (case getNoteTitle frontmatter file of
                          Inl e \<Rightarrow> (Some e, ns, es, lc, p')
                        | Inr title \<Rightarrow>
                            (let node = \<lparr>node_id = file, node_path = file, node_title = title,
                                         node_links = 0, node_backlinks = 0, node_tags = tags\<rparr>;
                                 (outgoingLinks, es') = processLinks L file links ([], es)
                             in firstPass L V fs
                                  (jsmap_set file (node\<lparr>node_links := length outgoingLinks\<rparr>) ns,
                                   es',
                                   jsmap_set file outgoingLinks lc,
                                   p'))))))"

definition addBacklink ::
  "string \<Rightarrow> string \<Rightarrow> (string, string list) jsmap \<Rightarrow> (string, string list) jsmap" where
  "addBacklink source tgt bc =
     (let bc1 = (if \<not> jsmap_has bc tgt then jsmap_set tgt [] bc else bc)
      in case jsmap_get bc1 tgt of
           Some srcs \<Rightarrow> jsmap_set tgt (jsset_add source srcs) bc1
         | None \<Rightarrow> bc1)"

definition secondPass :: "(string, string list) jsmap \<Rightarrow> (string, string list) jsmap" where
  "secondPass lc = fold (\<lambda>(source, targets) bc. fold (addBacklink source) targets bc) lc []"

definition updateBacklinkCounts ::
  "(string, string list) jsmap \<Rightarrow> (string, GraphNode) jsmap \<Rightarrow> (string, GraphNode) jsmap" where
  "updateBacklinkCounts bc ns =
     fold (\<lambda>(file, backlinks) ns'.
             case jsmap_get ns' file of
               Some node \<Rightarrow> jsmap_set file (node\<lparr>node_backlinks := length backlinks\<rparr>) ns'
             | None \<Rightarrow> ns')
          bc ns"

text \<open>
  \<open>buildLinkGraph\<close> clears both maps, runs the two passes and derives the orphans and
  the ten hubs (a stable sort by decreasing degree). An error of the first pass is the
  outcome of the call, and the link map stays as the first pass left it.
\<close>

definition buildLinkGraph ::
  "nodelib \<Rightarrow> vault \<Rightarrow> LinkParser \<Rightarrow> (jserror + GraphData) \<times> LinkParser" where
  "buildLinkGraph L V lp =
     (let lp0 = lp\<lparr>linkCache := [], backlinkCache := []\<rparr>
      in case firstPass L V (files V) ([], [], linkCache lp0, parser lp0) of
           (Some e, ns, es, lc, p) \<Rightarrow> (Inl e, lp0\<lparr>linkCache := lc, parser := p\<rparr>)
         | (None, ns, es, lc, p) \<Rightarrow>
             (let bc = secondPass lc;
                  ns' = updateBacklinkCounts bc ns;
                  values = map snd ns'
              in (Inr \<lparr>nodes = values,
                       edges = es,
                       orphaned = map node_path
                         (filter (\<lambda>node. node_links node = 0 \<and> node_backlinks node = 0) values),
                       hubs = map node_path
                         (take 10 (sort_key
                            (\<lambda>node. - int (node_links node + node_backlinks node)) values))\<rparr>,
                  lp0\<lparr>linkCache := lc, backlinkCache := bc, parser := p\<rparr>)))"

text \<open>\<open>LinkParser.getForwardLinks\<close>: an empty map is taken for a graph not built yet.\<close>

definition lookupLinks :: "(string, string list) jsmap \<Rightarrow> string \<Rightarrow> string list" where
  "lookupLinks m notePath = (case jsmap_get m notePath of Some links \<Rightarrow> links | None \<Rightarrow> [])"

definition lp_getForwardLinks ::
  "nodelib \<Rightarrow> vault \<Rightarrow> string \<Rightarrow> LinkParser \<Rightarrow> (jserror + string list) \<times> LinkParser" where
  "lp_getForwardLinks L V notePath lp =
     (if length (linkCache lp) = 0 then
        (case buildLinkGraph L V lp of
           (Inl e, lp') \<Rightarrow> (Inl e, lp')
         | (Inr g, lp') \<Rightarrow> (Inr (lookupLinks (linkCache lp') notePath), lp'))
      else (Inr (lookupLinks (linkCache lp) notePath), lp))"

definition lp_getBacklinks ::
  "nodelib \<Rightarrow> vault \<Rightarrow> string \<Rightarrow> LinkParser \<Rightarrow> (jserror + string list) \<times> LinkParser" where
  "lp_getBacklinks L V notePath lp =
     (if length (backlinkCache lp) = 0 then
        (case buildLinkGraph L V lp of
           (Inl e, lp') \<Rightarrow> (Inl e, lp')
         | (Inr g, lp') \<Rightarrow> (Inr (lookupLinks (backlinkCache lp') notePath), lp'))
      else (Inr (lookupLinks (backlinkCache lp) notePath), lp))"


section \<open>Graph queries (GraphUtils, src/utils/graph-utils.ts)\<close>

record GraphError =
  ge_path :: "string option"
  ge_operation :: "string option"
  ge_error :: string

record Metadata =
  totalProcessed :: int
  successCount :: int
  errorCount :: int

record 'a GraphResponse =
  data :: 'a
  errors :: "GraphError list option"
  metadata :: "Metadata option"

record GraphUtils =
  gu_linkCache :: "(string, string list) jsmap"
  linkParser :: LinkParser

definition getLinksFromFile ::
  "nodelib \<Rightarrow> vault \<Rightarrow> string \<Rightarrow> GraphUtils \<Rightarrow> (jserror + string list) \<times> GraphUtils" where
  "getLinksFromFile L V path gu =
     (let normalizedPath = ensureMarkdownExtension path
      in case jsmap_get (gu_linkCache gu) normalizedPath of
           Some links \<Rightarrow> (Inr links, gu)
         | None \<Rightarrow>
             (case lp_getForwardLinks L V normalizedPath (linkParser gu) of
                (Inr links, lp') \<Rightarrow>
                  (Inr links,
                   gu\<lparr>gu_linkCache := jsmap_set normalizedPath links (gu_linkCache gu),
                      linkParser := lp'\<rparr>)
              | (Inl e, lp') \<Rightarrow>
                  (Inl (JSError ''Error'' (''Failed to get links from file: '' @ error_toString e)),
                   gu\<lparr>linkParser := lp'\<rparr>)))"

text \<open>
  \<open>GraphUtils.getForwardLinks\<close> catches: it always returns a response. The argument is
  optional here because the loop of \<open>findShortestPath\<close> reads the last element of a
  path, which is \<open>undefined\<close> for an empty one; \<open>ensureMarkdownExtension\<close> then throws a
  TypeError inside the \<open>try\<close>.
\<close>

definition gu_getForwardLinks ::
  "nodelib \<Rightarrow> vault \<Rightarrow> string option \<Rightarrow> GraphUtils \<Rightarrow> string list GraphResponse \<times> GraphUtils" where
  "gu_getForwardLinks L V path gu =
     (case path of
        None \<Rightarrow>
          (\<lparr>data = [],
            errors = Some [\<lparr>ge_path = None, ge_operation = Some ''getForwardLinks'',
                            ge_error = ''Cannot read properties of undefined''\<rparr>],
            metadata = Some \<lparr>totalProcessed = 1, successCount = 0, errorCount = 1\<rparr>\<rparr>, gu)
      | Some p \<Rightarrow>
          (case getLinksFromFile L V p gu of
             (Inr links, gu') \<Rightarrow>
               (\<lparr>data = links, errors = None,
                 metadata = Some \<lparr>totalProcessed = 1, successCount = 1, errorCount = 0\<rparr>\<rparr>, gu')
           | (Inl e, gu') \<Rightarrow>
               (\<lparr>data = [],
                 errors = Some [\<lparr>ge_path = Some p, ge_operation = Some ''getForwardLinks'',
                                 ge_error = err_message e\<rparr>],
                 metadata = Some \<lparr>totalProcessed = 1, successCount = 0, errorCount = 1\<rparr>\<rparr>, gu')))"

text \<open>
  The inner loop of the search over the links of the current document: it returns the
  path as soon as a link is the target, and otherwise marks and queues the links not
  visited yet.
\<close>

datatype scan = Found "string list" | NotFound "string set" "string list list"

fun scanLinks ::
  "string \<Rightarrow> string list \<Rightarrow> string list \<Rightarrow> string set \<Rightarrow> string list list \<Rightarrow> scan" where
  "scanLinks tgt path [] visited queue = NotFound visited queue"
| "scanLinks tgt path (link # links) visited queue =
     (let normalizedLink = ensureMarkdownExtension link
      in if normalizedLink = tgt then Found (path @ [normalizedLink])
         else if normalizedLink \<notin> visited
         then scanLinks tgt path links (insert normalizedLink visited) (queue @ [path @ [normalizedLink]])
         else scanLinks tgt path links visited queue)"

definition mkResponse :: "string list \<Rightarrow> GraphError list \<Rightarrow> int \<Rightarrow> string list GraphResponse" where
  "mkResponse d errs processedCount =
     \<lparr>data = d,
      errors = (if length errs > 0 then Some errs else None),
      metadata = Some \<lparr>totalProcessed = processedCount,
                       successCount = processedCount - int (length errs),
                       errorCount = int (length errs)\<rparr>\<rparr>"

text \<open>
  What bounds the search: every document that some link of the maps or of the vault
  leads to. The loop marks each of them at most once.
\<close>

definition mapTargets :: "(string, string list) jsmap \<Rightarrow> string set" where
  "mapTargets m = (\<Union>kv \<in> set m. set (snd kv))"

definition vaultTargets :: "nodelib \<Rightarrow> vault \<Rightarrow> string set" where
  "vaultTargets L V =
     (\<Union>file \<in> set (files V).
        case readFile V file of
          Inl e \<Rightarrow> {}
        | Inr content \<Rightarrow> set (fst (processLinks L file (extractAllLinks content) ([], []))))"

definition rawTargets :: "nodelib \<Rightarrow> vault \<Rightarrow> GraphUtils \<Rightarrow> string set" where
  "rawTargets L V gu =
     mapTargets (gu_linkCache gu) \<union> mapTargets (linkCache (linkParser gu)) \<union> vaultTargets L V"

definition universe :: "nodelib \<Rightarrow> vault \<Rightarrow> GraphUtils \<Rightarrow> string set" where
  "universe L V gu = ensureMarkdownExtension ` rawTargets L V gu"

function bfsLoop ::
  "nodelib \<Rightarrow> vault \<Rightarrow> string
   \<Rightarrow> string list list \<times> string set \<times> GraphError list \<times> int \<times> GraphUtils
   \<Rightarrow> string list GraphResponse \<times> GraphUtils"
where
  "bfsLoop L V tgt (queue, visited, errs, processedCount, gu) =
     (case queue of
        [] \<Rightarrow> (mkResponse [] errs processedCount, gu)
      | path # rest \<Rightarrow>
          (let current = (if path = [] then None else Some (last path));
               processedCount' = processedCount + 1;
               (linksResponse, gu') = gu_getForwardLinks L V current gu;
               errs' = (case errors linksResponse of Some es \<Rightarrow> errs @ es | None \<Rightarrow> errs)
           in case scanLinks tgt path (data linksResponse) visited rest of
                Found p \<Rightarrow> (mkResponse p errs' processedCount', gu')
              | NotFound visited' queue' \<Rightarrow>
                  bfsLoop L V tgt (queue', visited', errs', processedCount', gu')))"
  by pat_completeness auto

definition findShortestPath ::
  "nodelib \<Rightarrow> vault \<Rightarrow> string \<Rightarrow> string \<Rightarrow> GraphUtils \<Rightarrow> string list GraphResponse \<times> GraphUtils" where
  "findShortestPath L V sourcePath targetPath gu =
     (let source = ensureMarkdownExtension sourcePath;
          tgt = ensureMarkdownExtension targetPath
      in if source = tgt then
           (\<lparr>data = [source], errors = None,
             metadata = Some \<lparr>totalProcessed = 0, successCount = 1, errorCount = 0\<rparr>\<rparr>, gu)
         else bfsLoop L V tgt ([[source]], {source}, [], 0, gu))"


section \<open>Similarity and duplicates (src/utils/vault-utils.ts)\<close>

text \<open>
  Similarities are JavaScript floating-point numbers; they are real numbers here, so a
  quotient is the exact one. \<open>levenshteinDistance\<close> fills its matrix row by row:
  \<open>nextRow\<close> computes the cells of row \<open>i\<close> from column 1 on, given the character
  \<open>c\<close> of the second string, the previous row from the diagonal cell on, and the cell to
  the left.
\<close>

fun nextRow :: "string \<Rightarrow> char \<Rightarrow> nat list \<Rightarrow> nat \<Rightarrow> nat list" where
  "nextRow [] c prev left = []"
| "nextRow (a # str1) c prev left =
     (case prev of
        diag # up # _ \<Rightarrow>
          (let v = (if c = a then diag else min (diag + 1) (min (left + 1) (up + 1)))
           in v # nextRow str1 c (tl prev) v)
      | _ \<Rightarrow> [])"

fun levRows :: "string \<Rightarrow> string \<Rightarrow> nat \<Rightarrow> nat list \<Rightarrow> nat list list" where
  "levRows str1 [] i prev = []"
| "levRows str1 (c # str2) i prev =
     (let row = i # nextRow str1 c prev i in row # levRows str1 str2 (i + 1) row)"

definition levMatrix :: "string \<Rightarrow> string \<Rightarrow> nat list list" where
  "levMatrix str1 str2 = (let row0 = [0..<length str1 + 1] in row0 # levRows str1 str2 1 row0)"

definition levenshteinDistance :: "string \<Rightarrow> string \<Rightarrow> nat" where
  "levenshteinDistance str1 str2 =
     (if length str1 > 1000 \<or> length str2 > 1000
      then (if str1 = str2 then 0 else max (length str1) (length str2))
      else levMatrix str1 str2 ! length str2 ! length str1)"

text \<open>The recurrence that the matrix tabulates, on the reversed prefixes.\<close>

fun editDistance :: "string \<Rightarrow> string \<Rightarrow> nat" where
  "editDistance [] ys = length ys"
| "editDistance (x # xs) [] = length (x # xs)"
| "editDistance (x # xs) (y # ys) =
     (if y = x then editDistance xs ys
      else min (editDistance xs ys + 1)
               (min (editDistance xs (y # ys) + 1) (editDistance (x # xs) ys + 1)))"

text \<open>
  Row \<open>i\<close> of the table from column \<open>length pre\<close> on, where \<open>ys\<close> is the prefix of
  length \<open>i\<close> of the second string and \<open>pre @ suf\<close> is the first string.
\<close>

fun rowOf :: "string \<Rightarrow> string \<Rightarrow> string \<Rightarrow> nat list" where
  "rowOf pre [] ys = [editDistance (rev pre) (rev ys)]"
| "rowOf pre (a # suf) ys = editDistance (rev pre) (rev ys) # rowOf (pre @ [a]) suf ys"

definition sampleSimilarity :: "string \<Rightarrow> string \<Rightarrow> nat \<Rightarrow> real" where
  "sampleSimilarity str1 str2 i =
     (let offset = (i * (min (length str1) (length str2) - 500)) div 5;
          sample1 = take 500 (drop offset str1);
          sample2 = take 500 (drop offset str2)
      in if sample1 \<noteq> [] \<and> sample2 \<noteq> [] then
           (real (max (length sample1) (length sample2))
              - real (levenshteinDistance sample1 sample2))
           / real (max (length sample1) (length sample2))
         else 0)"

definition calculateSampledSimilarity :: "string \<Rightarrow> string \<Rightarrow> real" where
  "calculateSampledSimilarity str1 str2 =
     (if str1 = str2 then 1
      else
        let lengthRatio =
              real (min (length str1) (length str2)) / real (max (length str1) (length str2))
        in if lengthRatio < 0.5 then 0
           else
             let totalSimilarity =
                   fold (\<lambda>i total. total + sampleSimilarity str1 str2 i) [0..<5] 0
             in lengthRatio * 0.3 + (totalSimilarity / 5) * 0.7)"

definition calculateStringSimilarity :: "string \<Rightarrow> string \<Rightarrow> real" where
  "calculateStringSimilarity str1 str2 =
     (let longer = (if length str1 > length str2 then str1 else str2);
          shorter = (if length str1 > length str2 then str2 else str1)
      in if length longer = 0 then 1
         else if length longer > 1000 then calculateSampledSimilarity str1 str2
         else (real (length longer) - real (levenshteinDistance longer shorter))
              / real (length longer))"

text \<open>
  The duplicate scan. What it reads is recorded: a full read of a document's content, a
  streamed hash of a file, and a string comparison of two contents.
\<close>

datatype duptype = Content | Title

datatype io_action = ReadContent string | HashFile string | CompareStrings string string

type_synonym VaultError = GraphError

record DuplicateNote =
  dup_paths :: "string list"
  dup_similarity :: real
  dup_type :: duptype

record PairState =
  similarity :: real
  sim_type :: duptype
  io_trace :: "io_action list"
  pair_errors :: "VaultError list"

definition SAFE_SIZE_LIMIT :: int where
  "SAFE_SIZE_LIMIT = 50 * 1024"

text \<open>The first pass of \<open>findDuplicateNotes\<close>: the sizes of the files whose \<open>stat\<close> succeeds.\<close>

fun collectFileSizes ::
  "vault \<Rightarrow> string list \<Rightarrow> (string, int) jsmap \<times> VaultError list
   \<Rightarrow> (string, int) jsmap \<times> VaultError list" where
  "collectFileSizes V [] acc = acc"
| "collectFileSizes V (f # fs) (fileSizes, errs) =
     (case stat_size V f of
        Inr sz \<Rightarrow> collectFileSizes V fs (jsmap_set f sz fileSizes, errs)
      | Inl e \<Rightarrow>
          collectFileSizes V fs
            (fileSizes,
             errs @ [\<lparr>ge_path = Some f, ge_operation = Some ''findDuplicateNotes.getStats'',
                      ge_error = err_message e\<rparr>]))"

text \<open>\<open>fileSizes.get(file) || 0\<close>.\<close>

definition sizeOrZero :: "(string, int) jsmap \<Rightarrow> string \<Rightarrow> int" where
  "sizeOrZero fileSizes f = (case jsmap_get fileSizes f of Some sz \<Rightarrow> sz | None \<Rightarrow> 0)"

text \<open>
  Two calls of \<open>computeFileHash\<close> and the comparison of the digests; the first call that
  rejects ends the sequence.
\<close>

definition hashBoth :: "vault \<Rightarrow> string \<Rightarrow> string \<Rightarrow> (jserror + bool) \<times> io_action list" where
  "hashBoth V file1 file2 =
     (case sha256 V file1 of
        Inl e \<Rightarrow> (Inl e, [HashFile file1])
      | Inr hash1 \<Rightarrow>
          (case sha256 V file2 of
             Inl e \<Rightarrow> (Inl e, [HashFile file1, HashFile file2])
           | Inr hash2 \<Rightarrow> (Inr (hash1 = hash2), [HashFile file1, HashFile file2])))"

text \<open>The inner \<open>catch\<close>: a second hash comparison whose own failure is dropped.\<close>

definition hashFallback :: "vault \<Rightarrow> string \<Rightarrow> string \<Rightarrow> PairState \<Rightarrow> PairState" where
  "hashFallback V file1 file2 st =
     (case hashBoth V file1 file2 of
        (Inr eq, tr) \<Rightarrow>
          (if eq then st\<lparr>similarity := 1, sim_type := Content, io_trace := io_trace st @ tr\<rparr>
           else st\<lparr>io_trace := io_trace st @ tr\<rparr>)
      | (Inl e, tr) \<Rightarrow> st\<lparr>io_trace := io_trace st @ tr\<rparr>)"

text \<open>
  The content comparison of one pair, the body of \<open>if (checkContent && similarity <
  threshold)\<close>. Its size gate is \<open>sizeDiff / avgSize < 0.1\<close>; the quotient is infinite in
  JavaScript when the average is zero, so the gate is closed then.
\<close>

definition sizesWithinTenPercent :: "int \<Rightarrow> int \<Rightarrow> bool" where
  "sizesWithinTenPercent file1Size file2Size =
     (let sizeDiff = \<bar>file1Size - file2Size\<bar>;
          avgSize = real_of_int (file1Size + file2Size) / 2
      in avgSize \<noteq> 0 \<and> real_of_int sizeDiff / avgSize < 0.1)"

definition contentComparison ::
  "vault \<Rightarrow> (string, int) jsmap \<Rightarrow> string \<Rightarrow> string \<Rightarrow> PairState \<Rightarrow> PairState" where
  "contentComparison V fileSizes file1 file2 st =
     (let file1Size = sizeOrZero fileSizes file1;
          file2Size = sizeOrZero fileSizes file2
      in if file1Size > SAFE_SIZE_LIMIT \<or> file2Size > SAFE_SIZE_LIMIT then
           (if sizesWithinTenPercent file1Size file2Size then
                 (case hashBoth V file1 file2 of
                    (Inr eq, tr) \<Rightarrow>
                      (if eq
                       then st\<lparr>similarity := 1, sim_type := Content, io_trace := io_trace st @ tr\<rparr>
                       else st\<lparr>io_trace := io_trace st @ tr\<rparr>)
                  | (Inl e, tr) \<Rightarrow>
                      st\<lparr>io_trace := io_trace st @ tr,
                         pair_errors := pair_errors st @
                           [\<lparr>ge_path = Some file2,
                             ge_operation = Some ''findDuplicateNotes.contentComparison'',
                             ge_error = err_message e\<rparr>]\<rparr>)
            else st)
         else
           (case readFile V file1 of
              Inl e \<Rightarrow>
                hashFallback V file1 file2 (st\<lparr>io_trace := io_trace st @ [ReadContent file1]\<rparr>)
            | Inr content1 \<Rightarrow>
                (case readFile V file2 of
                   Inl e \<Rightarrow>
                     hashFallback V file1 file2
                       (st\<lparr>io_trace := io_trace st @ [ReadContent file1, ReadContent file2]\<rparr>)
                 | Inr content2 \<Rightarrow>
                     (let st1 = st\<lparr>io_trace := io_trace st @ [ReadContent file1, ReadContent file2]\<rparr>
                      in if int (length content1) > SAFE_SIZE_LIMIT
                            \<or> int (length content2) > SAFE_SIZE_LIMIT then
                           (case hashBoth V file1 file2 of
                              (Inr eq, tr) \<Rightarrow>
                                (if eq
                                 then st1\<lparr>similarity := 1, sim_type := Content,
                                         io_trace := io_trace st1 @ tr\<rparr>
                                 else st1\<lparr>io_trace := io_trace st1 @ tr\<rparr>)
                            | (Inl e, tr) \<Rightarrow>
                                hashFallback V file1 file2 (st1\<lparr>io_trace := io_trace st1 @ tr\<rparr>))
                         else
                           (let contentSim = calculateStringSimilarity content1 content2;
                                st2 = st1\<lparr>io_trace := io_trace st1 @ [CompareStrings file1 file2]\<rparr>
                            in if contentSim > similarity st2
                               then st2\<lparr>similarity := contentSim, sim_type := Content\<rparr>
                               else st2)))))"

definition titleComparison :: "nodelib \<Rightarrow> bool \<Rightarrow> string \<Rightarrow> string \<Rightarrow> PairState" where
  "titleComparison L checkTitles file1 file2 =
     (let st = \<lparr>similarity = 0, sim_type = Content, io_trace = [], pair_errors = []\<rparr>
      in if checkTitles then
           (let title1 = toLowerCase (path_basename L file1 ''.md'');
                title2 = toLowerCase (path_basename L file2 ''.md'')
            in if title1 = title2 then st\<lparr>similarity := 1, sim_type := Title\<rparr>
               else
                 (let titleSim = calculateStringSimilarity title1 title2
                  in if titleSim > similarity st
                     then st\<lparr>similarity := titleSim, sim_type := Title\<rparr> else st))
         else st)"

definition comparePair ::
  "nodelib \<Rightarrow> vault \<Rightarrow> (string, int) jsmap \<Rightarrow> real \<Rightarrow> bool \<Rightarrow> bool \<Rightarrow> string \<Rightarrow> string \<Rightarrow> PairState"
where
  "comparePair L V fileSizes threshold checkContent checkTitles file1 file2 =
     (let st = titleComparison L checkTitles file1 file2
      in if checkContent \<and> similarity st < threshold
         then contentComparison V fileSizes file1 file2 st else st)"

text \<open>
  The two loops of \<open>findDuplicateNotes\<close>. The inner one compares \<open>file1\<close> with every later
  file that is in no group yet (its batches of twenty only pace the same sequence); the
  outer one opens a group at every file that is in none.
\<close>

record GroupState =
  processed :: "string set"
  duplicateGroup :: "string list"
  lastSimilarity :: real
  lastType :: duptype
  group_trace :: "io_action list"
  group_errors :: "VaultError list"

fun compareWithLater ::
  "nodelib \<Rightarrow> vault \<Rightarrow> (string, int) jsmap \<Rightarrow> real \<Rightarrow> bool \<Rightarrow> bool \<Rightarrow> string \<Rightarrow> string list
   \<Rightarrow> GroupState \<Rightarrow> GroupState" where
  "compareWithLater L V fileSizes threshold checkContent checkTitles file1 [] g = g"
| "compareWithLater L V fileSizes threshold checkContent checkTitles file1 (file2 # later) g =
     (if file2 \<in> processed g
      then compareWithLater L V fileSizes threshold checkContent checkTitles file1 later g
      else
        (let r = comparePair L V fileSizes threshold checkContent checkTitles file1 file2;
             g1 = g\<lparr>group_trace := group_trace g @ io_trace r,
                    group_errors := group_errors g @ pair_errors r\<rparr>;
             g2 = (if similarity r \<ge> threshold
                   then g1\<lparr>duplicateGroup := duplicateGroup g1 @ [file2],
                           processed := insert file2 (processed g1),
                           lastSimilarity := similarity r,
                           lastType := sim_type r\<rparr>
                   else g1)
         in compareWithLater L V fileSizes threshold checkContent checkTitles file1 later g2))"

record ScanState =
  scan_processed :: "string set"
  duplicates :: "DuplicateNote list"
  scan_trace :: "io_action list"
  scan_errors :: "VaultError list"
  scan_processedCount :: int

fun duplicateLoop ::
  "nodelib \<Rightarrow> vault \<Rightarrow> (string, int) jsmap \<Rightarrow> real \<Rightarrow> bool \<Rightarrow> bool \<Rightarrow> string list
   \<Rightarrow> ScanState \<Rightarrow> ScanState" where
  "duplicateLoop L V fileSizes threshold checkContent checkTitles [] s = s"
| "duplicateLoop L V fileSizes threshold checkContent checkTitles (file1 # later) s =
     (if file1 \<in> scan_processed s
      then duplicateLoop L V fileSizes threshold checkContent checkTitles later s
      else
        (let g = compareWithLater L V fileSizes threshold checkContent checkTitles file1 later
                   \<lparr>processed = scan_processed s, duplicateGroup = [file1], lastSimilarity = 0,
                    lastType = Content, group_trace = [], group_errors = []\<rparr>;
             s1 = s\<lparr>scan_processed := processed g,
                    scan_trace := scan_trace s @ group_trace g,
                    scan_errors := scan_errors s @ group_errors g,
                    scan_processedCount := scan_processedCount s + 1\<rparr>;
             s2 = (if length (duplicateGroup g) > 1
                   then s1\<lparr>scan_processed := insert file1 (scan_processed s1),
                           duplicates := duplicates s1 @
                             [\<lparr>dup_paths = duplicateGroup g, dup_similarity = lastSimilarity g,
                               dup_type = lastType g\<rparr>]\<rparr>
                   else s1)
         in duplicateLoop L V fileSizes threshold checkContent checkTitles later s2))"

definition findDuplicateNotes ::
  "nodelib \<Rightarrow> vault \<Rightarrow> real \<Rightarrow> bool \<Rightarrow> bool \<Rightarrow> DuplicateNote list GraphResponse \<times> io_action list"
where
  "findDuplicateNotes L V threshold checkContent checkTitles =
     (let (fileSizes, errs0) = collectFileSizes V (files V) ([], []);
          s = duplicateLoop L V fileSizes threshold checkContent checkTitles (files V)
                \<lparr>scan_processed = {}, duplicates = [], scan_trace = [], scan_errors = errs0,
                 scan_processedCount = 0\<rparr>
      in (\<lparr>data = duplicates s,
           errors = (if length (scan_errors s) > 0 then Some (scan_errors s) else None),
           metadata = Some \<lparr>totalProcessed = scan_processedCount s,
                            successCount = scan_processedCount s - int (length (scan_errors s)),
                            errorCount = int (length (scan_errors s))\<rparr>\<rparr>,
          scan_trace s))"


section \<open>The bounded cache (src/lru-cache.ts)\<close>

text \<open>
  Sizes, limits and timestamps are JavaScript numbers; they are integers here, negative
  values included, since the code accepts them. \<open>Date.now()\<close> is the argument \<open>now\<close> of
  each operation that reads the clock (one reading per call).
\<close>

record 'v CacheEntry =
  entry_value :: 'v
  entry_size :: int
  lastAccessed :: int
  accessCount :: int

record 'v LRUCache =
  cache :: "(string, 'v CacheEntry) jsmap"
  maxSize :: int
  maxItems :: int
  currentSize :: int
  ttl :: int

text \<open>The constructor: \<open>options.ttl || 3600000\<close> takes the default for a missing or zero ttl.\<close>

definition new_LRUCache :: "int \<Rightarrow> int \<Rightarrow> int option \<Rightarrow> 'v LRUCache" where
  "new_LRUCache ms mi t =
     \<lparr>cache = [], maxSize = ms, maxItems = mi, currentSize = 0,
      ttl = (case t of None \<Rightarrow> 3600000 | Some x \<Rightarrow> if x = 0 then 3600000 else x)\<rparr>"

definition lru_delete :: "string \<Rightarrow> 'v LRUCache \<Rightarrow> bool \<times> 'v LRUCache" where
  "lru_delete key c =
     (case jsmap_get (cache c) key of
        Some entry \<Rightarrow>
          (True, c\<lparr>currentSize := currentSize c - entry_size entry,
                   cache := jsmap_delete key (cache c)\<rparr>)
      | None \<Rightarrow> (False, c))"

definition lru_get :: "int \<Rightarrow> string \<Rightarrow> 'v LRUCache \<Rightarrow> 'v option \<times> 'v LRUCache" where
  "lru_get now key c =
     (case jsmap_get (cache c) key of
        None \<Rightarrow> (None, c)
      | Some entry \<Rightarrow>
          if now - lastAccessed entry > ttl c then (None, snd (lru_delete key c))
          else
            let entry' = entry\<lparr>lastAccessed := now, accessCount := accessCount entry + 1\<rparr>
            in (Some (entry_value entry'),
                c\<lparr>cache := jsmap_set key entry' (jsmap_delete key (cache c))\<rparr>))"

definition lru_has :: "int \<Rightarrow> string \<Rightarrow> 'v LRUCache \<Rightarrow> bool \<times> 'v LRUCache" where
  "lru_has now key c =
     (case jsmap_get (cache c) key of
        None \<Rightarrow> (False, c)
      | Some entry \<Rightarrow>
          if now - lastAccessed entry > ttl c then (False, snd (lru_delete key c))
          else (True, c))"

definition lru_clear :: "'v LRUCache \<Rightarrow> 'v LRUCache" where
  "lru_clear c = c\<lparr>cache := [], currentSize := 0\<rparr>"

definition lru_keys :: "'v LRUCache \<Rightarrow> string list" where
  "lru_keys c = map fst (cache c)"

definition removeExpired :: "int \<Rightarrow> 'v LRUCache \<Rightarrow> 'v LRUCache" where
  "removeExpired now c =
     (let keysToDelete =
            map fst (filter (\<lambda>kv. now - lastAccessed (snd kv) > ttl c) (cache c))
      in fold (\<lambda>key c'. snd (lru_delete key c')) keysToDelete c)"

text \<open>
  The eviction loop of \<open>ensureSpace\<close>. The body deletes the first key only when that key
  is truthy: with the empty string in front the iteration changes nothing and the loop
  repeats, so the loop is a partial function and \<open>None\<close> stands for not returning.
\<close>

partial_function (option) evictLoop :: "int \<Rightarrow> 'v LRUCache \<Rightarrow> 'v LRUCache option" where
  "evictLoop requiredSize c =
     (if (currentSize c + requiredSize > maxSize c \<or> int (length (cache c)) \<ge> maxItems c)
         \<and> length (cache c) > 0
      then (case cache c of
              [] \<Rightarrow> Some c
            | kv # _ \<Rightarrow>
                let firstKey = fst kv
                in if firstKey \<noteq> [] then evictLoop requiredSize (snd (lru_delete firstKey c))
                   else evictLoop requiredSize c)
      else Some c)"

declare evictLoop.simps [code]

definition ensureSpace :: "int \<Rightarrow> int \<Rightarrow> 'v LRUCache \<Rightarrow> 'v LRUCache option" where
  "ensureSpace now requiredSize c =
     (if requiredSize > maxSize c then Some c
      else evictLoop requiredSize (removeExpired now c))"

definition lru_set :: "int \<Rightarrow> string \<Rightarrow> 'v \<Rightarrow> int \<Rightarrow> 'v LRUCache \<Rightarrow> 'v LRUCache option" where
  "lru_set now key v sz c =
     (let c1 = (if jsmap_has (cache c) key then snd (lru_delete key c) else c)
      in case ensureSpace now sz c1 of
           None \<Rightarrow> None
         | Some c2 \<Rightarrow>
             let entry = \<lparr>entry_value = v, entry_size = sz, lastAccessed = now, accessCount = 1\<rparr>
             in Some (c2\<lparr>cache := jsmap_set key entry (cache c2),
                         currentSize := currentSize c2 + sz\<rparr>))"

text \<open>What the occupancy invariant speaks about: the stored sizes and the stored count.\<close>

definition storedSize :: "'v LRUCache \<Rightarrow> int" where
  "storedSize c = sum_list (map (\<lambda>kv. entry_size (snd kv)) (cache c))"

definition itemCount :: "'v LRUCache \<Rightarrow> int" where
  "itemCount c = int (length (cache c))"

text \<open>
  A cache is consistent when its keys are distinct, as the keys of a \<open>Map\<close> are, and the
  accounted size is the sum of the stored sizes.
\<close>

definition wfCache :: "'v LRUCache \<Rightarrow> bool" where
  "wfCache c = (distinct (map fst (cache c)) \<and> currentSize c = storedSize c)"

definition nonnegSizes :: "'v LRUCache \<Rightarrow> bool" where
  "nonnegSizes c = list_all (\<lambda>kv. 0 \<le> entry_size (snd kv)) (cache c)"

text \<open>What an operation keeps: consistency, the limits, non-negative sizes, and no new key.\<close>

definition keeps :: "'v LRUCache \<Rightarrow> 'v LRUCache \<Rightarrow> bool" where
  "keeps c c' =
     (wfCache c' \<and> maxSize c' = maxSize c \<and> maxItems c' = maxItems c
      \<and> set (lru_keys c') \<subseteq> set (lru_keys c)
      \<and> (nonnegSizes c \<longrightarrow> nonnegSizes c'))"



section \<open>Notions used in the statements\<close>

text \<open>
  The error that the first pass meets at a document when the parser is in state \<open>p\<close>:
  that of its read, of the parse of its frontmatter, of the extraction of its tags or of
  the reading of its title, whichever comes first; \<open>None\<close> when the document is
  processed without error. \<open>afterDoc\<close> is the state in which the pass leaves the parser
  at that document, and \<open>docsOk\<close> says that every document of a list is processed
  without error, each in the state that the documents before it left.
\<close>

definition docError :: "nodelib \<Rightarrow> vault \<Rightarrow> ObsidianParser \<Rightarrow> string \<Rightarrow> jserror option" where
  "docError L V p f =
     (case readFile V f of
        Inl e \<Rightarrow> Some e
      | Inr content \<Rightarrow>
          (case fst (parseFrontmatter L content p) of
             Inl e \<Rightarrow> Some e
           | Inr (frontmatter, body) \<Rightarrow>
               (case extractTags content frontmatter of
                  Inl e \<Rightarrow> Some e
                | Inr tags \<Rightarrow>
                    (case getNoteTitle frontmatter f of Inl e \<Rightarrow> Some e | Inr title \<Rightarrow> None))))"

definition afterDoc :: "nodelib \<Rightarrow> vault \<Rightarrow> ObsidianParser \<Rightarrow> string \<Rightarrow> ObsidianParser" where
  "afterDoc L V p f =
     (case readFile V f of
        Inl e \<Rightarrow> p
      | Inr content \<Rightarrow> snd (parseFrontmatter L content p))"

fun docsOk :: "nodelib \<Rightarrow> vault \<Rightarrow> ObsidianParser \<Rightarrow> string list \<Rightarrow> bool" where
  "docsOk L V p [] = True"
| "docsOk L V p (f # fs) = (docError L V p f = None \<and> docsOk L V (afterDoc L V p f) fs)"

definition afterDocs :: "nodelib \<Rightarrow> vault \<Rightarrow> ObsidianParser \<Rightarrow> string list \<Rightarrow> ObsidianParser" where
  "afterDocs L V p fs = fold (\<lambda>f q. afterDoc L V q f) fs p"

text \<open>
  The forward links of the document that \<open>p\<close> names, as the vault has them: the links
  that the first pass computes from the content of a listed document; a name that is
  not listed, or a document that cannot be read, has none.
\<close>

definition vaultLinks :: "nodelib \<Rightarrow> vault \<Rightarrow> string \<Rightarrow> string list" where
  "vaultLinks L V p =
     (let file = ensureMarkdownExtension p
      in if file \<in> set (files V) then
           (case readFile V file of
              Inr content \<Rightarrow> fst (processLinks L file (extractAllLinks content) ([], []))
            | Inl e \<Rightarrow> [])
         else [])"

text \<open>
  The caches are in step with the vault when every entry that a query can meet in the
  cache of \<open>GraphUtils\<close> is the forward links of its document, and the map of the parser
  either is empty, with every document processed without error so that the build
  completes, or answers every query with the forward links of the document. New objects
  over a vault whose documents are all processed are in such a state, and a search
  leaves them in one.
\<close>

definition linksInStep :: "nodelib \<Rightarrow> vault \<Rightarrow> GraphUtils \<Rightarrow> bool" where
  "linksInStep L V gu =
     ((\<forall>p links. jsmap_get (gu_linkCache gu) (ensureMarkdownExtension p) = Some links
                   \<longrightarrow> links = vaultLinks L V p)
      \<and> (if length (linkCache (linkParser gu)) = 0
         then docsOk L V (parser (linkParser gu)) (files V)
         else \<forall>p. lookupLinks (linkCache (linkParser gu)) (ensureMarkdownExtension p)
                    = vaultLinks L V p))"

text \<open>
  Directed walks along forward links. The search follows the normal form of every link,
  so the successors of a document are the normal forms of its links.
\<close>

definition successors :: "(string \<Rightarrow> string list) \<Rightarrow> string \<Rightarrow> string set" where
  "successors g p = set (map ensureMarkdownExtension (g p))"

fun isWalk :: "(string \<Rightarrow> string list) \<Rightarrow> string list \<Rightarrow> bool" where
  "isWalk g [] = False"
| "isWalk g [x] = True"
| "isWalk g (x # y # r) = (y \<in> successors g x \<and> isWalk g (y # r))"

definition walkFromTo :: "(string \<Rightarrow> string list) \<Rightarrow> string \<Rightarrow> string \<Rightarrow> string list \<Rightarrow> bool" where
  "walkFromTo g s t w = (isWalk g w \<and> hd w = s \<and> last w = t)"

text \<open>
  The invariant of the search loop: the queued paths are walks from the source, sorted
  by length and at most one apart; their ends are marked; a marked document that is not
  the end of a queued path has all its successors marked; the target is not marked;
  every walk shorter than the first queued path ends in a marked document that is no
  longer queued; every walk as long as it ends in a marked one; and no walk reaches the
  end of a queued path with fewer documents than that path.
\<close>

definition bfsInv ::
  "(string \<Rightarrow> string list) \<Rightarrow> string \<Rightarrow> string \<Rightarrow> string list list \<Rightarrow> string set \<Rightarrow> bool" where
  "bfsInv g src tgt Q vis =
     ((\<forall>p \<in> set Q. isWalk g p \<and> hd p = src)
      \<and> src \<in> vis \<and> tgt \<notin> vis
      \<and> last ` set Q \<subseteq> vis
      \<and> (\<forall>v \<in> vis - last ` set Q. successors g v \<subseteq> vis)
      \<and> sorted (map length Q)
      \<and> (\<forall>q \<in> set Q. length q \<le> length (hd Q) + 1)
      \<and> (\<forall>w. isWalk g w \<and> hd w = src \<and> Q \<noteq> [] \<and> length w < length (hd Q)
             \<longrightarrow> last w \<in> vis - last ` set Q)
      \<and> (\<forall>w. isWalk g w \<and> hd w = src \<and> Q \<noteq> [] \<and> length w \<le> length (hd Q)
             \<longrightarrow> last w \<in> vis)
      \<and> (\<forall>q \<in> set Q. \<forall>w. isWalk g w \<and> hd w = src \<and> last w = last q \<longrightarrow> length q \<le> length w))"

text \<open>
  What the search has to return: a shortest walk from the source to the target when
  there is a walk, and the empty list when there is none.
\<close>

definition shortestOrNone ::
  "(string \<Rightarrow> string list) \<Rightarrow> string \<Rightarrow> string \<Rightarrow> string list \<Rightarrow> bool" where
  "shortestOrNone g src tgt d =
     (if \<exists>w. walkFromTo g src tgt w
      then walkFromTo g src tgt d \<and> (\<forall>w. walkFromTo g src tgt w \<longrightarrow> length d \<le> length w)
      else d = [])"


text \<open>Every node of the node map is stored under its own path.\<close>

definition nodeKeys :: "(string, GraphNode) jsmap \<Rightarrow> bool" where
  "nodeKeys ns = list_all (\<lambda>kv. node_path (snd kv) = fst kv) ns"

text \<open>A map from documents to link sets has no self link when no key is in its own set.\<close>

definition noSelfLinks :: "(string, string list) jsmap \<Rightarrow> bool" where
  "noSelfLinks m = list_all (\<lambda>kv. fst kv \<notin> set (snd kv)) m"


section \<open>Inputs of the worked examples\<close>

text \<open>
  The libraries on the inputs of the examples: relative paths whose segments are plain
  names, and documents that do not begin with a frontmatter delimiter. On such inputs
  the functions of Node's \<open>path.posix\<close> and gray-matter compute what these definitions
  compute.
\<close>

definition exampleDirname :: "string \<Rightarrow> string" where
  "exampleDirname p =
     (let segs = js_split CHR ''/'' p
      in if length segs \<le> 1 then ''.''
         else foldr (\<lambda>seg acc. if acc = [] then seg else seg @ ''/'' @ acc) (butlast segs) [])"

definition exampleBasename :: "string \<Rightarrow> string \<Rightarrow> string" where
  "exampleBasename p ext =
     (let b = last (js_split CHR ''/'' p)
      in if endsWith b ext \<and> b \<noteq> ext then take (length b - length ext) b else b)"

definition exampleStringify :: "string \<Rightarrow> Frontmatter \<Rightarrow> string" where
  "exampleStringify content fm =
     ''---'' @ [CHR 0x0A]
     @ concat (map (\<lambda>kv. fst kv @ '': ''
                     @ (case snd kv of FmStr v \<Rightarrow> v | _ \<Rightarrow> [])
                     @ [CHR 0x0A]) fm)
     @ ''---'' @ [CHR 0x0A] @ content"

definition exampleLib :: nodelib where
  "exampleLib =
     \<lparr>path_dirname = exampleDirname,
      path_join = (\<lambda>dir name. dir @ ''/'' @ name),
      path_normalize = (\<lambda>p. p),
      path_basename = exampleBasename,
      matter = (\<lambda>seen content. Inr (FmObject [], content)),
      matter_stringify = exampleStringify\<rparr>"

definition enoent :: "string \<Rightarrow> jserror" where
  "enoent p = JSError ''Error'' (''ENOENT: no such file or directory, open '' @ p)"

text \<open>
  Three documents: \<open>A\<close> links to \<open>B\<close> and to itself, \<open>B\<close> links to \<open>C\<close> and back to \<open>A\<close>,
  \<open>C\<close> has no link.
\<close>

definition exampleVault :: vault where
  "exampleVault =
     \<lparr>files = [''A.md'', ''B.md'', ''C.md''],
      disk = (\<lambda>p. if p = ''A.md'' then Inr ''See [[B]], and [[A]] itself''
                  else if p = ''B.md'' then Inr ''Next [[C|the last one]], back to [first](A.md)''
                  else if p = ''C.md'' then Inr ''No links here #leaf''
                  else Inl (enoent p)),
      stat_size = (\<lambda>p. if p = ''A.md'' then Inr 27
                       else if p = ''B.md'' then Inr 46
                       else if p = ''C.md'' then Inr 19
                       else Inl (enoent p)),
      sha256 = (\<lambda>p. Inl (enoent p))\<rparr>"

text \<open>Two documents, the second of which cannot be read.\<close>

definition unreadableVault :: vault where
  "unreadableVault =
     \<lparr>files = [''A.md'', ''B.md''],
      disk = (\<lambda>p. if p = ''A.md'' then Inr ''See [[B]]'' else Inl (enoent p)),
      stat_size = (\<lambda>p. Inl (enoent p)),
      sha256 = (\<lambda>p. Inl (enoent p))\<rparr>"

text \<open>What \<open>buildLinkGraph\<close> computes for the three documents.\<close>

definition exampleGraph :: GraphData where
  "exampleGraph =
     \<lparr>nodes =
        [\<lparr>node_id = ''A.md'', node_path = ''A.md'', node_title = FmStr ''A'',
          node_links = 1, node_backlinks = 1, node_tags = []\<rparr>,
         \<lparr>node_id = ''B.md'', node_path = ''B.md'', node_title = FmStr ''B'',
          node_links = 2, node_backlinks = 1, node_tags = []\<rparr>,
         \<lparr>node_id = ''C.md'', node_path = ''C.md'', node_title = FmStr ''C'',
          node_links = 0, node_backlinks = 1, node_tags = [''leaf'']\<rparr>],
      edges =
        [\<lparr>edge_source = ''A.md'', edge_target = ''B.md'', edge_type = Wiki\<rparr>,
         \<lparr>edge_source = ''B.md'', edge_target = ''C.md'', edge_type = Wiki\<rparr>,
         \<lparr>edge_source = ''B.md'', edge_target = ''A.md'', edge_type = Markdown\<rparr>],
      orphaned = [],
      hubs = [''B.md'', ''A.md'', ''C.md'']\<rparr>"

definition exampleLinkParser :: LinkParser where
  "exampleLinkParser =
     \<lparr>linkCache = [(''A.md'', [''B.md'']), (''B.md'', [''C.md'', ''A.md'']), (''C.md'', [])],
      backlinkCache = [(''B.md'', [''A.md'']), (''C.md'', [''B.md'']), (''A.md'', [''B.md''])],
      parser = \<lparr>matterCalls = [''See [[B]], and [[A]] itself'',
                               ''Next [[C|the last one]], back to [first](A.md)'',
                               ''No links here #leaf'']\<rparr>\<rparr>"

text \<open>
  Four documents of which the second cannot be read: \<open>A\<close> links to \<open>C\<close>, and \<open>C\<close> links
  to \<open>D\<close>.
\<close>

definition brokenVault :: vault where
  "brokenVault =
     \<lparr>files = [''A.md'', ''B.md'', ''C.md'', ''D.md''],
      disk = (\<lambda>p. if p = ''A.md'' then Inr ''Start at [[C]]''
                  else if p = ''C.md'' then Inr ''Go on to [[D]]''
                  else if p = ''D.md'' then Inr ''The end''
                  else Inl (enoent p)),
      stat_size = (\<lambda>p. Inl (enoent p)),
      sha256 = (\<lambda>p. Inl (enoent p))\<rparr>"

text \<open>
  A gray-matter that finds the block \<open>tags: [a, null]\<close> at the head of every document.
\<close>

definition nullTagLib :: nodelib where
  "nullTagLib =
     exampleLib\<lparr>matter :=
       (\<lambda>seen content. Inr (FmObject [(''tags'', FmList [FmStr ''a'', FmNull])], content))\<rparr>"






definition freshLinkParser :: LinkParser where
  "freshLinkParser = \<lparr>linkCache = [], backlinkCache = [], parser = \<lparr>matterCalls = []\<rparr>\<rparr>"

definition freshGraphUtils :: GraphUtils where
  "freshGraphUtils = \<lparr>gu_linkCache = [], linkParser = freshLinkParser\<rparr>"


section \<open>Facts about maps\<close>

lemma jsmap_set_fresh: "k \<notin> set (map fst m) \<Longrightarrow> jsmap_set k v m = m @ [(k, v)]"
  by (induction m) auto

lemma jsmap_set_keys: "set (map fst (jsmap_set k v m)) = insert k (set (map fst m))"
  by (induction m) auto

lemma jsmap_set_distinct: "distinct (map fst m) \<Longrightarrow> distinct (map fst (jsmap_set k v m))"
proof (induction m)
  case Nil
  then show ?case by simp
next
  case (Cons kv m)
  have "fst kv \<notin> set (map fst (jsmap_set k v m))" if "fst kv \<noteq> k"
    using that Cons.prems by (simp add: jsmap_set_keys del: set_map)
  with Cons show ?case by auto
qed

lemma jsmap_get_set: "jsmap_get (jsmap_set k v m) k' = (if k' = k then Some v else jsmap_get m k')"
  by (induction m) (auto simp: jsmap_get_def)


section \<open>The cache: eviction order\<close>

lemma evictLoop_stop:
  "\<not> ((currentSize c + r > maxSize c \<or> int (length (cache c)) \<ge> maxItems c) \<and> length (cache c) > 0)
   \<Longrightarrow> evictLoop r c = Some c"
  by (subst evictLoop.simps) auto

lemma evictLoop_step:
  "cache c = kv # rest \<Longrightarrow> fst kv \<noteq> [] \<Longrightarrow>
   currentSize c + r > maxSize c \<or> int (length (cache c)) \<ge> maxItems c \<Longrightarrow>
   evictLoop r c = evictLoop r (snd (lru_delete (fst kv) c))"
  by (subst evictLoop.simps) (simp add: Let_def)

lemmas lru_defs = lru_set_def ensureSpace_def removeExpired_def lru_delete_def lru_get_def
  jsmap_get_def jsmap_has_def jsmap_delete_def new_LRUCache_def lru_keys_def

text \<open>
  C5. A cache with \<open>maxSize = 300\<close> and \<open>maxItems = 10\<close> receives \<open>a\<close>, \<open>b\<close>, \<open>c\<close> of
  100 bytes each and then \<open>d\<close> of 100 bytes: \<open>a\<close> is evicted and \<open>b\<close>, \<open>c\<close>, \<open>d\<close> are the
  keys. With a \<open>get\<close> of \<open>a\<close> before \<open>d\<close> is stored, \<open>b\<close> is evicted and \<open>a\<close> stays. The
  calls happen at times that do not decrease and span at most the default time to live,
  so that no entry expires in between.
\<close>

theorem lru_eviction_order_and_recency:
  assumes "t1 \<le> t2" "t2 \<le> t3" "t3 \<le> t4" "t4 \<le> t5" "t5 - t1 \<le> 3600000"
  shows "map_option lru_keys
           (Option.bind (Option.bind (Option.bind
              (lru_set t1 ''a'' va 100 (new_LRUCache 300 10 None))
              (lru_set t2 ''b'' vb 100)) (lru_set t3 ''c'' vc 100)) (lru_set t5 ''d'' vd 100))
         = Some [''b'', ''c'', ''d'']
       \<and> map_option lru_keys
           (Option.bind (map_option (\<lambda>c. snd (lru_get t4 ''a'' c))
              (Option.bind (Option.bind
                 (lru_set t1 ''a'' va 100 (new_LRUCache 300 10 None))
                 (lru_set t2 ''b'' vb 100)) (lru_set t3 ''c'' vc 100))) (lru_set t5 ''d'' vd 100))
         = Some [''c'', ''a'', ''d'']"
  using assms
  by (simp add: lru_defs evictLoop_stop evictLoop_step Let_def)

theorem lru_eviction_order_and_recency_witness:
  "(0::int) \<le> 1 \<and> (1::int) \<le> 2 \<and> (2::int) \<le> 3 \<and> (3::int) \<le> 4 \<and> (4::int) - 0 \<le> 3600000
   \<and> map_option lru_keys
           (Option.bind (Option.bind (Option.bind
              (lru_set 0 ''a'' ''va'' 100 (new_LRUCache 300 10 None))
              (lru_set 1 ''b'' ''vb'' 100)) (lru_set 2 ''c'' ''vc'' 100)) (lru_set 4 ''d'' ''vd'' 100))
         = Some [''b'', ''c'', ''d'']
   \<and> map_option lru_keys
           (Option.bind (map_option (\<lambda>c. snd (lru_get 3 ''a'' c))
              (Option.bind (Option.bind
                 (lru_set 0 ''a'' ''va'' 100 (new_LRUCache 300 10 None))
                 (lru_set 1 ''b'' ''vb'' 100)) (lru_set 2 ''c'' ''vc'' 100))) (lru_set 4 ''d'' ''vd'' 100))
         = Some [''c'', ''a'', ''d'']"
  using lru_eviction_order_and_recency [of 0 1 2 3 4 "''va''" "''vb''" "''vc''" "''vd''"]
  by simp


section \<open>The cache: a value larger than the cache\<close>

text \<open>
  \<open>ensureSpace\<close> returns early for a value larger than \<open>maxSize\<close>, and \<open>set\<close> goes on to
  store it: nothing is evicted and the value is added.
\<close>

lemma lru_set_oversized:
  assumes "maxSize c < sz" and "\<not> jsmap_has (cache c) key"
  shows "lru_set now key v sz c =
         Some (c\<lparr>cache := cache c @ [(key, \<lparr>entry_value = v, entry_size = sz,
                                              lastAccessed = now, accessCount = 1\<rparr>)],
                 currentSize := currentSize c + sz\<rparr>)"
  using assms by (simp add: lru_set_def ensureSpace_def Let_def jsmap_has_def jsmap_set_fresh)

text \<open>
  C1. The input of the repository's own test ``should handle very large items'': a cache
  of 100 bytes stores a value of 200 bytes, and the stored sizes add up to 200. A cache
  for one item stores a second one the same way.
\<close>

theorem occupancy_after_oversized_set:
  "map_option (\<lambda>c. (storedSize c, maxSize c))
     (lru_set 0 ''key1'' ''value1'' 200 (new_LRUCache 100 10 None)) = Some (200, 100)
   \<and> map_option (\<lambda>c. (itemCount c, maxItems c))
       (Option.bind (lru_set 0 ''a'' ''x'' 10 (new_LRUCache 100 1 None))
          (lru_set 0 ''b'' ''y'' 200)) = Some (2, 1)"
  by (simp add: lru_defs evictLoop_stop storedSize_def itemCount_def Let_def)

text \<open>
  C2. A cache of 100 bytes that holds \<open>a\<close> (10 bytes) is given \<open>big\<close> of 101 bytes: the
  call stores it, and the cache holds both keys and accounts 111 bytes.
\<close>

theorem oversized_set_is_stored:
  "map_option (\<lambda>c. (lru_keys c, currentSize c, maxSize c))
     (Option.bind (lru_set 0 ''a'' ''x'' 10 (new_LRUCache 100 10 None))
        (lru_set 0 ''big'' ''y'' 101)) = Some ([''a'', ''big''], 111, 100)"
  by (simp add: lru_defs evictLoop_stop Let_def)


section \<open>The cache: values that fit\<close>

lemma sum_sizes_delete:
  "distinct (map fst m) \<Longrightarrow> map_of m k = Some e \<Longrightarrow>
   sum_list (map (\<lambda>kv. entry_size (snd kv)) (filter (\<lambda>kv. fst kv \<noteq> k) m))
   = sum_list (map (\<lambda>kv. entry_size (snd kv)) m) - entry_size e"
proof (induction m)
  case Nil
  then show ?case by simp
next
  case (Cons kv m)
  show ?case
  proof (cases "fst kv = k")
    case True
    with Cons.prems have e: "snd kv = e" and "k \<notin> fst ` set m" by (cases kv; auto)+
    then have "filter (\<lambda>kv. fst kv \<noteq> k) m = m" by (auto simp: filter_id_conv)
    with True e show ?thesis by simp
  next
    case False
    with Cons show ?thesis by (cases kv) auto
  qed
qed

lemma keeps_refl: "wfCache c \<Longrightarrow> keeps c c"
  by (simp add: keeps_def)

lemma keeps_trans: "keeps a b \<Longrightarrow> keeps b c \<Longrightarrow> keeps a c"
  by (auto simp: keeps_def)

lemma lru_delete_keeps:
  assumes "wfCache c"
  shows "keeps c (snd (lru_delete k c))" and "k \<notin> set (lru_keys (snd (lru_delete k c)))"
proof -
  show "keeps c (snd (lru_delete k c))"
  proof (cases "jsmap_get (cache c) k")
    case None
    with assms show ?thesis by (simp add: lru_delete_def keeps_def)
  next
    case (Some e)
    have "wfCache (snd (lru_delete k c))"
      using Some assms sum_sizes_delete [of "cache c" k e]
      by (simp add: lru_delete_def wfCache_def storedSize_def jsmap_delete_def jsmap_get_def
                    distinct_map_filter)
    moreover have "set (lru_keys (snd (lru_delete k c))) \<subseteq> set (lru_keys c)"
      using Some by (auto simp: lru_delete_def lru_keys_def jsmap_delete_def)
    moreover have "nonnegSizes (snd (lru_delete k c))" if "nonnegSizes c"
      using that Some
      by (auto simp: lru_delete_def nonnegSizes_def jsmap_delete_def list_all_iff)
    ultimately show ?thesis using Some by (simp add: keeps_def lru_delete_def)
  qed
  show "k \<notin> set (lru_keys (snd (lru_delete k c)))"
  proof (cases "jsmap_get (cache c) k")
    case None
    then have "k \<notin> fst ` set (cache c)" by (simp add: jsmap_get_def map_of_eq_None_iff)
    with None show ?thesis by (simp add: lru_delete_def lru_keys_def)
  next
    case (Some e)
    then show ?thesis by (auto simp: lru_delete_def lru_keys_def jsmap_delete_def)
  qed
qed

lemma fold_delete_keeps:
  "wfCache c \<Longrightarrow> keeps c (fold (\<lambda>key c'. snd (lru_delete key c')) ks c)"
proof (induction ks arbitrary: c)
  case Nil
  then show ?case by (simp add: keeps_refl)
next
  case (Cons k ks)
  from lru_delete_keeps(1) [OF Cons.prems, of k]
  have 1: "keeps c (snd (lru_delete k c))" .
  then have "wfCache (snd (lru_delete k c))" by (simp add: keeps_def)
  from Cons.IH [OF this] 1 show ?case by (auto intro: keeps_trans)
qed

lemma removeExpired_keeps: "wfCache c \<Longrightarrow> keeps c (removeExpired now c)"
  by (simp add: removeExpired_def Let_def fold_delete_keeps)

lemma evictLoop_keeps:
  assumes "evictLoop r c = Some c'"
  shows "wfCache c \<longrightarrow>
         keeps c c'
         \<and> (cache c' = [] \<or> (currentSize c' + r \<le> maxSize c' \<and> int (length (cache c')) < maxItems c'))"
proof (rule evictLoop.raw_induct
         [where P = "\<lambda>r c c'. wfCache c \<longrightarrow> keeps c c'
            \<and> (cache c' = [] \<or> (currentSize c' + r \<le> maxSize c'
                                 \<and> int (length (cache c')) < maxItems c'))",
          OF _ assms], goal_cases)
  case (1 f r c c')
  show ?case
  proof
    assume wf: "wfCache c"
    show "keeps c c'
         \<and> (cache c' = [] \<or> (currentSize c' + r \<le> maxSize c' \<and> int (length (cache c')) < maxItems c'))"
    proof (cases "(maxSize c < currentSize c + r \<or> maxItems c \<le> int (length (cache c)))
                  \<and> 0 < length (cache c)")
      case False
      with 1(2) have "c' = c" by (simp split: if_splits)
      with False wf show ?thesis by (auto simp: keeps_refl)
    next
      case True
      then obtain kv rest where cs: "cache c = kv # rest" by (cases "cache c") auto
      show ?thesis
      proof (cases "fst kv = []")
        case True
        with \<open>(maxSize c < currentSize c + r \<or> maxItems c \<le> int (length (cache c)))
                  \<and> 0 < length (cache c)\<close> cs 1(2)
        have "f r c = Some c'" by (simp add: Let_def)
        from 1(1) [OF this] wf show ?thesis by blast
      next
        case False
        let ?c1 = "snd (lru_delete (fst kv) c)"
        from False \<open>(maxSize c < currentSize c + r \<or> maxItems c \<le> int (length (cache c)))
                  \<and> 0 < length (cache c)\<close> cs 1(2)
        have "f r ?c1 = Some c'" by (simp add: Let_def)
        moreover have k: "keeps c ?c1" by (rule lru_delete_keeps(1) [OF wf])
        then have "wfCache ?c1" by (simp add: keeps_def)
        ultimately have "keeps ?c1 c'
           \<and> (cache c' = [] \<or> (currentSize c' + r \<le> maxSize c' \<and> int (length (cache c')) < maxItems c'))"
          using 1(1) by blast
        with k show ?thesis by (auto intro: keeps_trans)
      qed
    qed
  qed
qed

lemma storedSize_nonneg: "nonnegSizes c \<Longrightarrow> 0 \<le> storedSize c"
  unfolding nonnegSizes_def storedSize_def
  by (rule sum_list_nonneg) (auto simp: list_all_iff)

text \<open>
  A value that is not larger than the cache: when \<open>set\<close> returns, the cache is consistent
  and within both limits, the new key is the most recent one, and a value of exactly
  \<open>maxSize\<close> bytes leaves the accounted size at \<open>maxSize\<close> when no stored size is
  negative.
\<close>

lemma lru_set_within_bounds:
  assumes wf: "wfCache c" and fits: "sz \<le> maxSize c" and items: "1 \<le> maxItems c"
    and ret: "lru_set now key v sz c = Some c'"
  shows "wfCache c' \<and> storedSize c' \<le> maxSize c' \<and> itemCount c' \<le> maxItems c'
         \<and> maxSize c' = maxSize c \<and> maxItems c' = maxItems c
         \<and> last (lru_keys c') = key
         \<and> (nonnegSizes c \<and> sz = maxSize c \<longrightarrow> currentSize c' = maxSize c)"
proof -
  define c1 where "c1 = (if jsmap_has (cache c) key then snd (lru_delete key c) else c)"
  have k1: "keeps c c1"
    using lru_delete_keeps(1) [OF wf, of key] wf by (simp add: c1_def keeps_refl)
  have n1: "key \<notin> set (lru_keys c1)"
    using lru_delete_keeps(2) [OF wf, of key] by (simp add: c1_def jsmap_has_def lru_keys_def)
  define c2 where "c2 = removeExpired now c1"
  from k1 have wf1: "wfCache c1" by (simp add: keeps_def)
  have k2: "keeps c1 c2" unfolding c2_def by (rule removeExpired_keeps [OF wf1])
  then have wf2: "wfCache c2" by (simp add: keeps_def)
  from k1 fits have "\<not> sz > maxSize c1" by (simp add: keeps_def)
  then have es: "ensureSpace now sz c1 = evictLoop sz c2"
    by (simp add: ensureSpace_def c2_def)
  let ?e = "\<lparr>entry_value = v, entry_size = sz, lastAccessed = now, accessCount = 1\<rparr>"
  have ls: "lru_set now key v sz c =
        (case evictLoop sz c2 of
           None \<Rightarrow> None
         | Some c3 \<Rightarrow> Some (c3\<lparr>cache := jsmap_set key ?e (cache c3),
                                currentSize := currentSize c3 + sz\<rparr>))"
    unfolding lru_set_def c1_def [symmetric] Let_def es ..
  with ret obtain c3 where ev: "evictLoop sz c2 = Some c3"
    and c': "c' = c3\<lparr>cache := jsmap_set key ?e (cache c3), currentSize := currentSize c3 + sz\<rparr>"
    by (auto split: option.splits)
  from evictLoop_keeps [OF ev] wf2
  have k3: "keeps c2 c3"
    and room: "cache c3 = [] \<or> (currentSize c3 + sz \<le> maxSize c3 \<and> int (length (cache c3)) < maxItems c3)"
    by blast+
  from k1 k2 k3 have k: "keeps c c3" by (blast intro: keeps_trans)
  then have wf3: "wfCache c3" and ms: "maxSize c3 = maxSize c" and mi: "maxItems c3 = maxItems c"
    by (simp_all add: keeps_def)
  from k2 k3 have "set (lru_keys c3) \<subseteq> set (lru_keys c1)" unfolding keeps_def by blast
  with n1 have "key \<notin> set (lru_keys c3)" by blast
  then have fresh: "key \<notin> set (map fst (cache c3))" unfolding lru_keys_def .
  have cache': "cache c' = cache c3 @ [(key, ?e)]"
    by (simp add: c' jsmap_set_fresh [OF fresh])
  have cur': "currentSize c' = currentSize c3 + sz" "maxSize c' = maxSize c" "maxItems c' = maxItems c"
    by (simp_all add: c' ms mi)
  have st: "storedSize c' = storedSize c3 + sz" by (simp add: storedSize_def cache')
  have wf': "wfCache c'"
    using wf3 fresh st by (simp add: wfCache_def cache' cur')
  have zero: "currentSize c3 = 0" if "cache c3 = []"
    using wf3 that by (simp add: wfCache_def storedSize_def)
  have size: "storedSize c' \<le> maxSize c'"
    using room wf3 ms fits zero st by (auto simp: wfCache_def cur')
  have count: "itemCount c' \<le> maxItems c'"
    using room mi items by (auto simp: itemCount_def cache' cur')
  have exact: "currentSize c' = maxSize c" if nn: "nonnegSizes c" and eq: "sz = maxSize c"
  proof -
    from k nn have "nonnegSizes c3" by (simp add: keeps_def)
    then have "0 \<le> currentSize c3" using storedSize_nonneg wf3 by (simp add: wfCache_def)
    moreover have "currentSize c3 \<le> 0" using room zero eq ms by auto
    ultimately show ?thesis by (simp add: cur' eq)
  qed
  have "last (lru_keys c') = key" by (simp add: lru_keys_def cache')
  with wf' size count exact cur' show ?thesis by simp
qed

text \<open>
  With no empty key in the cache the eviction loop returns. With the empty key in front
  and an eviction due, it does not.
\<close>

lemma evictLoop_returns:
  "[] \<notin> set (lru_keys c) \<Longrightarrow> wfCache c \<Longrightarrow> \<exists>c'. evictLoop r c = Some c'"
proof (induction "length (cache c)" arbitrary: c)
  case 0
  then show ?case by (simp add: evictLoop_stop)
next
  case (Suc n)
  show ?case
  proof (cases "(maxSize c < currentSize c + r \<or> maxItems c \<le> int (length (cache c)))
                \<and> 0 < length (cache c)")
    case False
    then show ?thesis by (simp add: evictLoop_stop)
  next
    case True
    then obtain kv rest where cs: "cache c = kv # rest" by (cases "cache c") auto
    with Suc.prems(1) have ne: "fst kv \<noteq> []" by (auto simp: lru_keys_def)
    let ?c1 = "snd (lru_delete (fst kv) c)"
    have step: "evictLoop r c = evictLoop r ?c1"
      using True by (intro evictLoop_step [OF cs ne]) simp
    from Suc.prems(2) cs have d: "fst kv \<notin> fst ` set rest" by (simp add: wfCache_def)
    have "map_of (cache c) (fst kv) = Some (snd kv)" by (simp add: cs)
    moreover have "filter (\<lambda>x. fst x \<noteq> fst kv) rest = rest"
    proof (rule filter_True)
      show "\<forall>x \<in> set rest. fst x \<noteq> fst kv"
      proof
        fix x assume "x \<in> set rest"
        then have "fst x \<in> fst ` set rest" by (rule imageI)
        with d show "fst x \<noteq> fst kv" by metis
      qed
    qed
    ultimately have c1: "cache ?c1 = rest"
      by (simp add: lru_delete_def jsmap_get_def jsmap_delete_def cs)
    with Suc.hyps(2) cs have "n = length (cache ?c1)" by simp
    moreover have "[] \<notin> set (lru_keys ?c1)"
      using Suc.prems(1) c1 cs by (simp add: lru_keys_def)
    moreover have "wfCache ?c1"
      using lru_delete_keeps(1) [OF Suc.prems(2), of "fst kv"] by (simp add: keeps_def)
    ultimately show ?thesis using Suc.hyps(1) step by simp
  qed
qed

lemma evictLoop_diverges:
  assumes "evictLoop r c = Some c'"
  shows "\<not> (\<exists>e rest. cache c = ([], e) # rest
              \<and> (maxSize c < currentSize c + r \<or> maxItems c \<le> int (length (cache c))))"
proof (rule evictLoop.raw_induct
         [where P = "\<lambda>r c c'. \<not> (\<exists>e rest. cache c = ([], e) # rest
              \<and> (maxSize c < currentSize c + r \<or> maxItems c \<le> int (length (cache c))))",
          OF _ assms], goal_cases)
  case (1 f r c c')
  show ?case
  proof
    assume "\<exists>e rest. cache c = ([], e) # rest
              \<and> (maxSize c < currentSize c + r \<or> maxItems c \<le> int (length (cache c)))"
    then obtain e rest where cs: "cache c = ([], e) # rest"
      and due: "maxSize c < currentSize c + r \<or> maxItems c \<le> int (length (cache c))" by blast
    with 1(2) have "f r c = Some c'" by (simp add: Let_def)
    from 1(1) [OF this] cs due show False by blast
  qed
qed


section \<open>The parser: empty frontmatter\<close>

text \<open>
  C6. With the empty frontmatter map, \<open>stringifyWithFrontmatter\<close> returns the body as it
  is, for every body, and so for the body that \<open>parseFrontmatter\<close> produced from any
  document: the output is the body, with no delimiter block added.
\<close>

theorem stringify_empty_frontmatter:
  "stringifyWithFrontmatter L [] body = body
   \<and> (fst (parseFrontmatter L d p) = Inr (fm, b) \<longrightarrow> stringifyWithFrontmatter L [] b = b)"
  by (simp add: stringifyWithFrontmatter_def)

theorem stringify_empty_frontmatter_witness:
  "fst (parseFrontmatter exampleLib ''Body #c'' \<lparr>matterCalls = []\<rparr>) = Inr (FmObject [], ''Body #c'')
   \<and> stringifyWithFrontmatter exampleLib [] ''Body #c'' = ''Body #c''"
proof -
  have p: "fst (parseFrontmatter exampleLib ''Body #c'' \<lparr>matterCalls = []\<rparr>)
           = Inr (FmObject [], ''Body #c'')"
    by (simp add: parseFrontmatter_def exampleLib_def)
  from stringify_empty_frontmatter
         [of exampleLib "''Body #c''" "''Body #c''" "\<lparr>matterCalls = []\<rparr>" "FmObject []" "''Body #c''"] p
  show ?thesis by blast
qed


section \<open>The link graph: no self loops\<close>

lemma processLinks_no_self:
  "processLinks L f links (out, es) = (out', es') \<Longrightarrow> f \<notin> set out \<Longrightarrow> f \<notin> set out'"
  by (induction links arbitrary: out es)
     (auto simp: Let_def jsset_add_def split: if_splits)

lemma processLinks_edges:
  "processLinks L f links (out, es) = (out', es') \<Longrightarrow>
   \<forall>e \<in> set es. edge_target e \<noteq> edge_source e \<Longrightarrow>
   \<forall>e \<in> set es'. edge_target e \<noteq> edge_source e"
proof (induction links arbitrary: out es)
  case Nil
  then show ?case by simp
next
  case (Cons link links)
  let ?t = "resolveLink L (target link) f"
  let ?e = "\<lparr>edge_source = f, edge_target = ?t, edge_type = link_type link\<rparr>"
  show ?case
  proof (cases "(link_type link = Wiki \<or> link_type link = Markdown) \<and> ?t \<noteq> [] \<and> ?t \<noteq> f")
    case True
    with Cons.prems(1)
    have "processLinks L f links (jsset_add ?t out, es @ [?e]) = (out', es')"
      by (simp add: Let_def)
    moreover have "\<forall>e \<in> set (es @ [?e]). edge_target e \<noteq> edge_source e"
      using True Cons.prems(2) by simp
    ultimately show ?thesis by (rule Cons.IH)
  next
    case False
    have "processLinks L f links (out, es) = (out', es')"
    proof (cases "link_type link = Wiki \<or> link_type link = Markdown")
      case True
      with False have "\<not> (?t \<noteq> [] \<and> ?t \<noteq> f)" by blast
      with True Cons.prems(1) show ?thesis by (simp add: Let_def)
    next
      case False
      with Cons.prems(1) show ?thesis by simp
    qed
    then show ?thesis using Cons.prems(2) by (rule Cons.IH)
  qed
qed

lemma jsmap_set_subset: "set (jsmap_set k v m) \<subseteq> insert (k, v) (set m)"
  by (induction m) auto

lemma noSelfLinks_set: "noSelfLinks m \<Longrightarrow> k \<notin> set v \<Longrightarrow> noSelfLinks (jsmap_set k v m)"
  using jsmap_set_subset [of k v m] by (auto simp: noSelfLinks_def list_all_iff)

text \<open>
  The first pass at one document: it ends with the error of the document, or goes on
  with the node and the links of the document stored.
\<close>

lemma firstPass_fails:
  "docError L V p f = Some e \<Longrightarrow>
   firstPass L V (f # fs) (ns, es, lc, p) = (Some e, ns, es, lc, afterDoc L V p f)"
  by (auto simp: docError_def afterDoc_def split: sum.splits prod.splits)

lemma firstPass_continues:
  assumes "docError L V p f = None"
  obtains content node where "readFile V f = Inr content" "node_path node = f"
    "firstPass L V (f # fs) (ns, es, lc, p) =
       firstPass L V fs
         (jsmap_set f node ns,
          snd (processLinks L f (extractAllLinks content) ([], es)),
          jsmap_set f (fst (processLinks L f (extractAllLinks content) ([], es))) lc,
          afterDoc L V p f)"
proof -
  from assms obtain content where rd: "readFile V f = Inr content"
    by (auto simp: docError_def split: sum.splits)
  obtain r p' where pf: "parseFrontmatter L content p = (r, p')"
    by (cases "parseFrontmatter L content p")
  from assms rd pf obtain frontmatter body where r: "r = Inr (frontmatter, body)"
    by (auto simp: docError_def split: sum.splits)
  from assms rd pf r obtain tags where tg: "extractTags content frontmatter = Inr tags"
    by (auto simp: docError_def split: sum.splits)
  from assms rd pf r tg obtain title where ti: "getNoteTitle frontmatter f = Inr title"
    by (auto simp: docError_def split: sum.splits)
  define node where "node = \<lparr>node_id = f, node_path = f, node_title = title,
      node_links = length (fst (processLinks L f (extractAllLinks content) ([], es))),
      node_backlinks = 0, node_tags = tags\<rparr>"
  have "firstPass L V (f # fs) (ns, es, lc, p) =
       firstPass L V fs
         (jsmap_set f node ns,
          snd (processLinks L f (extractAllLinks content) ([], es)),
          jsmap_set f (fst (processLinks L f (extractAllLinks content) ([], es))) lc,
          afterDoc L V p f)"
    using rd pf r tg ti
    by (simp add: Let_def node_def afterDoc_def split: prod.splits)
  moreover have "node_path node = f" by (simp add: node_def)
  ultimately show ?thesis using rd that by blast
qed

lemma firstPass_no_self:
  "firstPass L V fs (ns, es, lc, p) = (r, ns', es', lc', p') \<Longrightarrow> noSelfLinks lc \<Longrightarrow>
   \<forall>e \<in> set es. edge_target e \<noteq> edge_source e \<Longrightarrow>
   noSelfLinks lc' \<and> (\<forall>e \<in> set es'. edge_target e \<noteq> edge_source e)"
proof (induction fs arbitrary: ns es lc p)
  case Nil
  then show ?case by simp
next
  case (Cons f fs)
  show ?case
  proof (cases "docError L V p f")
    case (Some e)
    from firstPass_fails [OF Some] Cons.prems show ?thesis by simp
  next
    case None
    from firstPass_continues [OF None, of fs ns es lc]
    obtain content node where
      step: "firstPass L V (f # fs) (ns, es, lc, p) =
         firstPass L V fs
           (jsmap_set f node ns,
            snd (processLinks L f (extractAllLinks content) ([], es)),
            jsmap_set f (fst (processLinks L f (extractAllLinks content) ([], es))) lc,
            afterDoc L V p f)"
      by blast
    obtain out es1 where pl: "processLinks L f (extractAllLinks content) ([], es) = (out, es1)"
      by (cases "processLinks L f (extractAllLinks content) ([], es)")
    have "f \<notin> set out" using processLinks_no_self [OF pl] by simp
    then have 1: "noSelfLinks (jsmap_set f out lc)"
      using Cons.prems(2) by (rule noSelfLinks_set [rotated])
    have 2: "\<forall>e \<in> set es1. edge_target e \<noteq> edge_source e"
      using processLinks_edges [OF pl Cons.prems(3)] .
    from Cons.prems(1) step pl
    have "firstPass L V fs (jsmap_set f node ns, es1, jsmap_set f out lc, afterDoc L V p f)
          = (r, ns', es', lc', p')"
      by simp
    from Cons.IH [OF this 1 2] show ?thesis .
  qed
qed

lemma buildLinkGraph_no_self:
  "noSelfLinks (linkCache (snd (buildLinkGraph L V lp)))"
  "fst (buildLinkGraph L V lp) = Inr g \<Longrightarrow> \<forall>e \<in> set (edges g). edge_target e \<noteq> edge_source e"
proof -
  obtain r ns es lc p where fp: "firstPass L V (files V) ([], [], [], parser lp) = (r, ns, es, lc, p)"
    by (metis prod_cases5)
  from firstPass_no_self [OF fp]
  have *: "noSelfLinks lc" "\<forall>e \<in> set es. edge_target e \<noteq> edge_source e"
    by (simp_all add: noSelfLinks_def)
  show "noSelfLinks (linkCache (snd (buildLinkGraph L V lp)))"
    using fp * by (cases r) (auto simp: buildLinkGraph_def Let_def)
  show "\<forall>e \<in> set (edges g). edge_target e \<noteq> edge_source e"
    if "fst (buildLinkGraph L V lp) = Inr g"
    using that fp * by (cases r) (auto simp: buildLinkGraph_def Let_def)
qed

lemma lookupLinks_no_self: "noSelfLinks m \<Longrightarrow> d \<notin> set (lookupLinks m d)"
proof (cases "jsmap_get m d")
  case None
  then show ?thesis by (simp add: lookupLinks_def)
next
  case (Some ls)
  assume "noSelfLinks m"
  moreover from Some have "(d, ls) \<in> set m" by (auto simp: jsmap_get_def dest: map_of_SomeD)
  ultimately have "d \<notin> set ls" by (auto simp: noSelfLinks_def list_all_iff)
  with Some show ?thesis by (simp add: lookupLinks_def)
qed

lemma lp_getForwardLinks_no_self:
  assumes "noSelfLinks (linkCache lp)" "fst (lp_getForwardLinks L V d lp) = Inr links"
  shows "d \<notin> set links"
proof (cases "length (linkCache lp) = 0")
  case False
  with assms show ?thesis by (auto simp: lp_getForwardLinks_def lookupLinks_no_self)
next
  case True
  obtain r lp' where b: "buildLinkGraph L V lp = (r, lp')" by (cases "buildLinkGraph L V lp")
  with buildLinkGraph_no_self(1) [of L V lp] have "noSelfLinks (linkCache lp')" by simp
  with assms(2) True b show ?thesis
    by (cases r) (auto simp: lp_getForwardLinks_def lookupLinks_no_self)
qed

text \<open>
  C7. After \<open>buildLinkGraph\<close>, whatever the vault and the libraries, the links that
  \<open>getForwardLinks\<close> returns for a document \<open>d\<close> do not contain \<open>d\<close>; the same holds for
  a fresh parser, whose first query builds the graph; and no edge of a built graph has
  its source as target.
\<close>

theorem no_self_loops:
  "(fst (lp_getForwardLinks L V d (snd (buildLinkGraph L V lp))) = Inr links \<longrightarrow> d \<notin> set links)
   \<and> (fst (lp_getForwardLinks L V d freshLinkParser) = Inr links' \<longrightarrow> d \<notin> set links')
   \<and> (fst (buildLinkGraph L V lp) = Inr g \<longrightarrow> list_all (\<lambda>e. edge_target e \<noteq> edge_source e) (edges g))"
proof (intro conjI impI)
  assume "fst (lp_getForwardLinks L V d (snd (buildLinkGraph L V lp))) = Inr links"
  with buildLinkGraph_no_self(1) [of L V lp] show "d \<notin> set links"
    by (rule lp_getForwardLinks_no_self)
next
  have "noSelfLinks (linkCache freshLinkParser)"
    by (simp add: freshLinkParser_def noSelfLinks_def)
  moreover assume "fst (lp_getForwardLinks L V d freshLinkParser) = Inr links'"
  ultimately show "d \<notin> set links'"
    by (rule lp_getForwardLinks_no_self)
next
  assume "fst (buildLinkGraph L V lp) = Inr g"
  then show "list_all (\<lambda>e. edge_target e \<noteq> edge_source e) (edges g)"
    using buildLinkGraph_no_self(2) [of L V lp g] by (simp add: list_all_iff)
qed

lemma freshLinkParser_fields [simp]:
  "linkCache freshLinkParser = []" "backlinkCache freshLinkParser = []"
  "parser freshLinkParser = \<lparr>matterCalls = []\<rparr>"
  by (simp_all add: freshLinkParser_def)

lemma exampleVault_build:
  "buildLinkGraph exampleLib exampleVault freshLinkParser = (Inr exampleGraph, exampleLinkParser)"
  by code_simp

lemma unreadableVault_build:
  "buildLinkGraph exampleLib unreadableVault freshLinkParser =
     (Inl (enoent ''B.md''),
      \<lparr>linkCache = [(''A.md'', [''B.md''])], backlinkCache = [],
       parser = \<lparr>matterCalls = [''See [[B]]'']\<rparr>\<rparr>)"
  by code_simp

theorem no_self_loops_witness:
  "fst (lp_getForwardLinks exampleLib exampleVault ''A.md''
          (snd (buildLinkGraph exampleLib exampleVault freshLinkParser))) = Inr [''B.md'']
   \<and> ''A.md'' \<notin> set [''B.md'']
   \<and> fst (lp_getForwardLinks exampleLib exampleVault ''A.md'' freshLinkParser) = Inr [''B.md'']
   \<and> fst (buildLinkGraph exampleLib exampleVault freshLinkParser) = Inr exampleGraph
   \<and> list_all (\<lambda>e. edge_target e \<noteq> edge_source e) (edges exampleGraph)"
proof -
  have 1: "fst (lp_getForwardLinks exampleLib exampleVault ''A.md''
          (snd (buildLinkGraph exampleLib exampleVault freshLinkParser))) = Inr [''B.md'']"
    by (simp add: exampleVault_build lp_getForwardLinks_def exampleLinkParser_def
                  lookupLinks_def jsmap_get_def)
  have 2: "fst (lp_getForwardLinks exampleLib exampleVault ''A.md'' freshLinkParser) = Inr [''B.md'']"
    by (simp add: exampleVault_build lp_getForwardLinks_def exampleLinkParser_def
                  lookupLinks_def jsmap_get_def)
  have 3: "fst (buildLinkGraph exampleLib exampleVault freshLinkParser) = Inr exampleGraph"
    by (simp add: exampleVault_build)
  from no_self_loops [of exampleLib exampleVault "''A.md''" freshLinkParser "[''B.md'']"
                         "[''B.md'']" exampleGraph] 1 2 3
  show ?thesis by simp
qed

section \<open>The link graph: one unreadable document\<close>

lemma jsmap_set_map_fst:
  "map fst (jsmap_set k v m) = (if k \<in> set (map fst m) then map fst m else map fst m @ [k])"
  by (induction m) auto

lemma jsmap_get_mem: "jsmap_get m k = Some v \<Longrightarrow> (k, v) \<in> set m"
  by (auto simp: jsmap_get_def dest: map_of_SomeD)

lemma nodeKeys_set: "nodeKeys ns \<Longrightarrow> node_path n = k \<Longrightarrow> nodeKeys (jsmap_set k n ns)"
  using jsmap_set_subset [of k n ns] by (auto simp: nodeKeys_def list_all_iff)

lemma nodeKeys_paths: "nodeKeys ns \<Longrightarrow> map node_path (map snd ns) = map fst ns"
  by (induction ns) (auto simp: nodeKeys_def)

lemma afterDocs_Nil [simp]: "afterDocs L V p [] = p"
  by (simp add: afterDocs_def)

lemma afterDocs_Cons [simp]: "afterDocs L V p (f # fs) = afterDocs L V (afterDoc L V p f) fs"
  by (simp add: afterDocs_def)

lemma firstPass_ok:
  "docsOk L V p fs \<Longrightarrow> nodeKeys ns \<Longrightarrow>
   \<exists>ns' es' lc'. firstPass L V fs (ns, es, lc, p) = (None, ns', es', lc', afterDocs L V p fs)
      \<and> nodeKeys ns'
      \<and> set (map fst ns') = set (map fst ns) \<union> set fs
      \<and> (distinct (map fst ns @ fs) \<longrightarrow> map fst ns' = map fst ns @ fs)"
proof (induction fs arbitrary: ns es lc p)
  case Nil
  then show ?case by simp
next
  case (Cons f fs)
  from Cons.prems(1) have ok: "docError L V p f = None"
    and rest: "docsOk L V (afterDoc L V p f) fs" by simp_all
  from firstPass_continues [OF ok, of fs ns es lc]
  obtain content node where np: "node_path node = f"
    and step: "firstPass L V (f # fs) (ns, es, lc, p) =
       firstPass L V fs
         (jsmap_set f node ns,
          snd (processLinks L f (extractAllLinks content) ([], es)),
          jsmap_set f (fst (processLinks L f (extractAllLinks content) ([], es))) lc,
          afterDoc L V p f)"
    by blast
  have nk: "nodeKeys (jsmap_set f node ns)"
    using Cons.prems(2) np by (rule nodeKeys_set)
  from Cons.IH [OF rest nk]
  obtain ns' es' lc' where
    r: "firstPass L V fs
         (jsmap_set f node ns,
          snd (processLinks L f (extractAllLinks content) ([], es)),
          jsmap_set f (fst (processLinks L f (extractAllLinks content) ([], es))) lc,
          afterDoc L V p f)
        = (None, ns', es', lc', afterDocs L V (afterDoc L V p f) fs)"
    and k: "nodeKeys ns'"
    and s: "set (map fst ns') = set (map fst (jsmap_set f node ns)) \<union> set fs"
    and d: "distinct (map fst (jsmap_set f node ns) @ fs)
            \<longrightarrow> map fst ns' = map fst (jsmap_set f node ns) @ fs"
    by blast
  have "set (map fst ns') = set (map fst ns) \<union> set (f # fs)"
    using s by (simp add: jsmap_set_keys del: set_map)
  moreover have "map fst ns' = map fst ns @ f # fs" if "distinct (map fst ns @ f # fs)"
  proof -
    from that have "f \<notin> set (map fst ns)" by auto
    then have "map fst (jsmap_set f node ns) = map fst ns @ [f]"
      by (simp add: jsmap_set_map_fst del: set_map)
    with d that show ?thesis by simp
  qed
  ultimately show ?case using step r k by simp
qed

lemma firstPass_fail:
  "docsOk L V p pre \<Longrightarrow> docError L V (afterDocs L V p pre) f = Some e \<Longrightarrow>
   \<exists>ns' es' lc' p'. firstPass L V (pre @ f # post) (ns, es, lc, p) = (Some e, ns', es', lc', p')"
proof (induction pre arbitrary: ns es lc p)
  case Nil
  then show ?case using firstPass_fails [of L V p f e post ns es lc] by simp
next
  case (Cons d pre)
  from Cons.prems(1) have ok: "docError L V p d = None"
    and rest: "docsOk L V (afterDoc L V p d) pre" by simp_all
  from firstPass_continues [OF ok, of "pre @ f # post" ns es lc]
  obtain content node where
    step: "firstPass L V (d # pre @ f # post) (ns, es, lc, p) =
       firstPass L V (pre @ f # post)
         (jsmap_set d node ns,
          snd (processLinks L d (extractAllLinks content) ([], es)),
          jsmap_set d (fst (processLinks L d (extractAllLinks content) ([], es))) lc,
          afterDoc L V p d)"
    by blast
  from Cons.prems(2) have "docError L V (afterDocs L V (afterDoc L V p d) pre) f = Some e"
    by simp
  from Cons.IH [OF rest this] step show ?case by simp
qed

lemma updateBacklinkCounts_keys:
  "nodeKeys ns \<Longrightarrow>
   nodeKeys (updateBacklinkCounts bc ns) \<and> map fst (updateBacklinkCounts bc ns) = map fst ns"
proof (induction bc arbitrary: ns)
  case Nil
  then show ?case by (simp add: updateBacklinkCounts_def)
next
  case (Cons kv bc)
  obtain fl backlinks where kv: "kv = (fl, backlinks)" by (cases kv)
  define ns1 where "ns1 = (case jsmap_get ns fl of
       Some node \<Rightarrow> jsmap_set fl (node\<lparr>node_backlinks := length backlinks\<rparr>) ns
     | None \<Rightarrow> ns)"
  have unfold: "updateBacklinkCounts (kv # bc) ns = updateBacklinkCounts bc ns1"
    by (simp add: updateBacklinkCounts_def kv ns1_def)
  have "nodeKeys ns1 \<and> map fst ns1 = map fst ns"
  proof (cases "jsmap_get ns fl")
    case None
    with Cons.prems show ?thesis by (simp add: ns1_def)
  next
    case (Some node)
    from jsmap_get_mem [OF Some] have mem: "(fl, node) \<in> set ns" .
    with Cons.prems have "node_path node = fl" by (auto simp: nodeKeys_def list_all_iff)
    then have "nodeKeys (jsmap_set fl (node\<lparr>node_backlinks := length backlinks\<rparr>) ns)"
      using Cons.prems by (intro nodeKeys_set) simp_all
    moreover have "fl \<in> set (map fst ns)" using mem by force
    then have "map fst (jsmap_set fl (node\<lparr>node_backlinks := length backlinks\<rparr>) ns) = map fst ns"
      by (simp add: jsmap_set_map_fst del: set_map)
    ultimately show ?thesis using Some by (simp add: ns1_def)
  qed
  with Cons.IH [of ns1] unfold show ?case by simp
qed

text \<open>
  C3, as the code has it. \<open>buildLinkGraph\<close> is all or nothing. When every listed
  document is processed without error, the call returns a graph whose nodes are the
  listed documents, in listing order when no document is listed twice. When a document
  fails after documents that did not, the call fails with the error of that document
  and returns no graph.
\<close>

theorem buildLinkGraph_all_or_nothing:
  "(docsOk L V (parser lp) (files V) \<longrightarrow>
      (\<exists>g. fst (buildLinkGraph L V lp) = Inr g
           \<and> set (map node_path (nodes g)) = set (files V)
           \<and> (distinct (files V) \<longrightarrow> map node_path (nodes g) = files V)))
   \<and> (files V = pre @ f # post \<and> docsOk L V (parser lp) pre
        \<and> docError L V (afterDocs L V (parser lp) pre) f = Some e \<longrightarrow>
        fst (buildLinkGraph L V lp) = Inl e)"
proof (intro conjI impI)
  assume ok: "docsOk L V (parser lp) (files V)"
  have "nodeKeys []" by (simp add: nodeKeys_def)
  from firstPass_ok [OF ok this, of "[]" "[]"]
  obtain ns es lc where
    fp: "firstPass L V (files V) ([], [], [], parser lp)
         = (None, ns, es, lc, afterDocs L V (parser lp) (files V))"
    and k: "nodeKeys ns" and s: "set (map fst ns) = set (files V)"
    and d: "distinct (files V) \<longrightarrow> map fst ns = files V"
    by auto
  define ns' where "ns' = updateBacklinkCounts (secondPass lc) ns"
  from updateBacklinkCounts_keys [OF k, of "secondPass lc"]
  have k': "nodeKeys ns'" and m: "map fst ns' = map fst ns" by (simp_all add: ns'_def)
  obtain g where g: "fst (buildLinkGraph L V lp) = Inr g" and n: "nodes g = map snd ns'"
    using fp by (simp add: buildLinkGraph_def Let_def ns'_def)
  have e: "map node_path (nodes g) = map fst ns"
    using nodeKeys_paths [OF k'] n m by simp
  have "set (map node_path (nodes g)) = set (files V)"
    unfolding e by (rule s)
  moreover have "distinct (files V) \<longrightarrow> map node_path (nodes g) = files V"
    unfolding e by (rule d)
  ultimately
  show "\<exists>g. fst (buildLinkGraph L V lp) = Inr g
           \<and> set (map node_path (nodes g)) = set (files V)
           \<and> (distinct (files V) \<longrightarrow> map node_path (nodes g) = files V)"
    using g by blast
next
  assume "files V = pre @ f # post \<and> docsOk L V (parser lp) pre
          \<and> docError L V (afterDocs L V (parser lp) pre) f = Some e"
  then have fs: "files V = pre @ f # post" and ok: "docsOk L V (parser lp) pre"
    and err: "docError L V (afterDocs L V (parser lp) pre) f = Some e" by simp_all
  from firstPass_fail [OF ok err, of post "[]" "[]" "[]"] fs
  obtain ns es lc p where
    "firstPass L V (files V) ([], [], [], parser lp) = (Some e, ns, es, lc, p)" by auto
  then show "fst (buildLinkGraph L V lp) = Inl e"
    by (simp add: buildLinkGraph_def Let_def)
qed

text \<open>
  C3 as the specification words it fails on two documents of which the second cannot be
  read: the first is processed without error, and the whole build is the error of the
  second.
\<close>

theorem buildLinkGraph_aborts_counterexample:
  "docError exampleLib unreadableVault \<lparr>matterCalls = []\<rparr> ''A.md'' = None
   \<and> docError exampleLib unreadableVault \<lparr>matterCalls = [''See [[B]]'']\<rparr> ''B.md''
       = Some (enoent ''B.md'')
   \<and> fst (buildLinkGraph exampleLib unreadableVault freshLinkParser) = Inl (enoent ''B.md'')"
proof -
  have "docError exampleLib unreadableVault \<lparr>matterCalls = []\<rparr> ''A.md'' = None"
    by code_simp
  moreover
  have "docError exampleLib unreadableVault \<lparr>matterCalls = [''See [[B]]'']\<rparr> ''B.md''
       = Some (enoent ''B.md'')"
    by code_simp
  ultimately show ?thesis by (simp add: unreadableVault_build)
qed

theorem buildLinkGraph_all_or_nothing_witness:
  "docsOk exampleLib exampleVault (parser freshLinkParser) (files exampleVault)
   \<and> distinct (files exampleVault)
   \<and> fst (buildLinkGraph exampleLib exampleVault freshLinkParser) = Inr exampleGraph
   \<and> map node_path (nodes exampleGraph) = files exampleVault
   \<and> files unreadableVault = [''A.md''] @ ''B.md'' # []
   \<and> docsOk exampleLib unreadableVault (parser freshLinkParser) [''A.md'']
   \<and> docError exampleLib unreadableVault
        (afterDocs exampleLib unreadableVault (parser freshLinkParser) [''A.md'']) ''B.md''
       = Some (enoent ''B.md'')
   \<and> fst (buildLinkGraph exampleLib unreadableVault freshLinkParser) = Inl (enoent ''B.md'')"
proof -
  have 1: "docsOk exampleLib exampleVault (parser freshLinkParser) (files exampleVault)"
    by code_simp
  have 2: "distinct (files exampleVault)" by (simp add: exampleVault_def)
  have 3: "files unreadableVault = [''A.md''] @ ''B.md'' # []" by (simp add: unreadableVault_def)
  have 4: "docsOk exampleLib unreadableVault (parser freshLinkParser) [''A.md'']"
    by code_simp
  have 5: "docError exampleLib unreadableVault
        (afterDocs exampleLib unreadableVault (parser freshLinkParser) [''A.md'']) ''B.md''
       = Some (enoent ''B.md'')"
    by code_simp
  have 6: "fst (buildLinkGraph exampleLib exampleVault freshLinkParser) = Inr exampleGraph"
    by (simp add: exampleVault_build)
  from buildLinkGraph_all_or_nothing
         [of exampleLib exampleVault freshLinkParser "[]" "''x''" "[]" "enoent ''x''"]
       1 2 6
  have a: "map node_path (nodes exampleGraph) = files exampleVault" by auto
  from buildLinkGraph_all_or_nothing [of exampleLib unreadableVault freshLinkParser
          "[''A.md'']" "''B.md''" "[]" "enoent ''B.md''"] 3 4 5
  have b: "fst (buildLinkGraph exampleLib unreadableVault freshLinkParser) = Inl (enoent ''B.md'')"
    by blast
  from 1 2 3 4 5 6 a b show ?thesis by blast
qed

text \<open>
  A \<open>null\<close> among the tags of the frontmatter has no \<open>toString\<close>: \<open>extractTags\<close> throws
  a TypeError at the first document, and the build ends there as it does for a document
  that cannot be read.
\<close>

lemma null_tag_aborts_build:
  "extractTags ''See [[B]], and [[A]] itself'' (FmObject [(''tags'', FmList [FmStr ''a'', FmNull])])
     = Inl (nullPropertyError ''toString'')
   \<and> buildLinkGraph nullTagLib exampleVault freshLinkParser
     = (Inl (nullPropertyError ''toString''),
        \<lparr>linkCache = [], backlinkCache = [],
         parser = \<lparr>matterCalls = [''See [[B]], and [[A]] itself'']\<rparr>\<rparr>)"
  by code_simp

text \<open>
  A number in the place of the tags becomes a tag, and a number in the place of the
  title is the title of the node; an empty title gives way to the file name.
\<close>

lemma number_as_tag_and_title:
  "extractTags ''text #b'' (FmObject [(''tags'', FmOther True ''2024'')]) = Inr [''2024'', ''b'']
   \<and> getNoteTitle (FmObject [(''title'', FmOther True ''7'')]) ''notes/seven.md''
       = Inr (FmOther True ''7'')
   \<and> getNoteTitle (FmObject [(''title'', FmStr [])]) ''notes/seven.md'' = Inr (FmStr ''seven'')"
  by code_simp


section \<open>The search terminates\<close>

lemma mapTargets_Nil [simp]: "mapTargets [] = {}"
  by (simp add: mapTargets_def)

lemma mapTargets_jsmap_set: "mapTargets (jsmap_set k v m) \<subseteq> set v \<union> mapTargets m"
  by (induction m) (auto simp: mapTargets_def)

lemma jsmap_get_subset: "jsmap_get m p = Some ls \<Longrightarrow> set ls \<subseteq> mapTargets m"
  by (auto simp: jsmap_get_def mapTargets_def dest!: map_of_SomeD)

lemma lookupLinks_subset: "set (lookupLinks m p) \<subseteq> mapTargets m"
  using jsmap_get_subset [of m p] by (cases "jsmap_get m p") (auto simp: lookupLinks_def)

lemma finite_mapTargets [simp]: "finite (mapTargets m)"
  by (simp add: mapTargets_def)

lemma finite_vaultTargets [simp]: "finite (vaultTargets L V)"
  by (auto simp: vaultTargets_def split: sum.splits)

lemma finite_universe [simp]: "finite (universe L V gu)"
  by (simp add: universe_def rawTargets_def)

lemma processLinks_fst:
  "fst (processLinks L file links (out, es)) = fst (processLinks L file links (out, es'))"
  by (induction links arbitrary: out es es') (auto simp: Let_def)

lemma firstPass_targets:
  "firstPass L V fs (ns, es, lc, p) = (r, ns', es', lc', p') \<Longrightarrow> set fs \<subseteq> set (files V) \<Longrightarrow>
   mapTargets lc' \<subseteq> mapTargets lc \<union> vaultTargets L V"
proof (induction fs arbitrary: ns es lc p)
  case Nil
  then show ?case by simp
next
  case (Cons f fs)
  show ?case
  proof (cases "docError L V p f")
    case (Some e)
    from firstPass_fails [OF Some] Cons.prems show ?thesis by simp
  next
    case None
    from firstPass_continues [OF None, of fs ns es lc]
    obtain content node where rd: "readFile V f = Inr content"
      and step: "firstPass L V (f # fs) (ns, es, lc, p) =
         firstPass L V fs
           (jsmap_set f node ns,
            snd (processLinks L f (extractAllLinks content) ([], es)),
            jsmap_set f (fst (processLinks L f (extractAllLinks content) ([], es))) lc,
            afterDoc L V p f)"
      by blast
    let ?out = "fst (processLinks L f (extractAllLinks content) ([], []))"
    have out: "fst (processLinks L f (extractAllLinks content) ([], es)) = ?out"
      by (rule processLinks_fst)
    have "set ?out \<subseteq> vaultTargets L V"
      using Cons.prems(2) rd by (force simp: vaultTargets_def)
    moreover from Cons.prems step
    have "firstPass L V fs
           (jsmap_set f node ns,
            snd (processLinks L f (extractAllLinks content) ([], es)),
            jsmap_set f ?out lc,
            afterDoc L V p f) = (r, ns', es', lc', p')"
      by (simp add: out)
    from Cons.IH [OF this] Cons.prems(2)
    have "mapTargets lc' \<subseteq> mapTargets (jsmap_set f ?out lc) \<union> vaultTargets L V" by simp
    ultimately show ?thesis
      using mapTargets_jsmap_set [of f ?out lc] by blast
  qed
qed

lemma buildLinkGraph_targets:
  "mapTargets (linkCache (snd (buildLinkGraph L V lp))) \<subseteq> vaultTargets L V"
proof -
  obtain r ns es lc p where fp: "firstPass L V (files V) ([], [], [], parser lp) = (r, ns, es, lc, p)"
    by (metis prod_cases5)
  from firstPass_targets [OF fp] have "mapTargets lc \<subseteq> vaultTargets L V" by simp
  then show ?thesis
    using fp by (cases r) (auto simp: buildLinkGraph_def Let_def)
qed

lemma lp_getForwardLinks_targets:
  assumes "lp_getForwardLinks L V p lp = (r, lp')"
  shows "mapTargets (linkCache lp') \<subseteq> mapTargets (linkCache lp) \<union> vaultTargets L V"
    and "r = Inr links \<Longrightarrow> set links \<subseteq> mapTargets (linkCache lp) \<union> vaultTargets L V"
proof -
  show "mapTargets (linkCache lp') \<subseteq> mapTargets (linkCache lp) \<union> vaultTargets L V"
    using assms buildLinkGraph_targets [of L V lp]
    by (auto simp: lp_getForwardLinks_def split: if_splits prod.splits sum.splits)
  show "r = Inr links \<Longrightarrow> set links \<subseteq> mapTargets (linkCache lp) \<union> vaultTargets L V"
    using assms buildLinkGraph_targets [of L V lp] lookupLinks_subset
    by (fastforce simp: lp_getForwardLinks_def split: if_splits prod.splits sum.splits)
qed

lemma getLinksFromFile_targets:
  assumes "getLinksFromFile L V p gu = (r, gu')"
  shows "rawTargets L V gu' \<subseteq> rawTargets L V gu"
    and "r = Inr links \<Longrightarrow> set links \<subseteq> rawTargets L V gu"
proof -
  let ?n = "ensureMarkdownExtension p"
  show "rawTargets L V gu' \<subseteq> rawTargets L V gu"
  proof (cases "jsmap_get (gu_linkCache gu) ?n")
    case (Some ls)
    with assms show ?thesis by (simp add: getLinksFromFile_def)
  next
    case None
    obtain r1 lp' where g: "lp_getForwardLinks L V ?n (linkParser gu) = (r1, lp')"
      by (cases "lp_getForwardLinks L V ?n (linkParser gu)")
    show ?thesis
    proof (cases r1)
      case (Inl e)
      with assms None g lp_getForwardLinks_targets(1) [OF g] show ?thesis
        by (auto simp: getLinksFromFile_def rawTargets_def)
    next
      case (Inr ls)
      with assms None g lp_getForwardLinks_targets(1) [OF g]
        lp_getForwardLinks_targets(2) [OF g, of ls]
        mapTargets_jsmap_set [of ?n ls "gu_linkCache gu"]
      show ?thesis
        by (auto simp: getLinksFromFile_def rawTargets_def)
    qed
  qed
  show "r = Inr links \<Longrightarrow> set links \<subseteq> rawTargets L V gu"
  proof (cases "jsmap_get (gu_linkCache gu) ?n")
    case (Some ls)
    assume "r = Inr links"
    with assms Some jsmap_get_subset [OF Some] show ?thesis
      by (auto simp: getLinksFromFile_def rawTargets_def)
  next
    case None
    assume r: "r = Inr links"
    obtain r1 lp' where g: "lp_getForwardLinks L V ?n (linkParser gu) = (r1, lp')"
      by (cases "lp_getForwardLinks L V ?n (linkParser gu)")
    with assms None r lp_getForwardLinks_targets(2) [OF g, of links] show ?thesis
      by (cases r1) (auto simp: getLinksFromFile_def rawTargets_def)
  qed
qed

lemma gu_getForwardLinks_targets:
  assumes "gu_getForwardLinks L V cur gu = (resp, gu')"
  shows "rawTargets L V gu' \<subseteq> rawTargets L V gu" and "set (data resp) \<subseteq> rawTargets L V gu"
proof -
  show "rawTargets L V gu' \<subseteq> rawTargets L V gu"
  proof (cases cur)
    case None
    with assms show ?thesis by (simp add: gu_getForwardLinks_def)
  next
    case (Some p)
    obtain r g1 where g: "getLinksFromFile L V p gu = (r, g1)"
      by (cases "getLinksFromFile L V p gu")
    with assms Some getLinksFromFile_targets(1) [OF g] show ?thesis
      by (cases r) (auto simp: gu_getForwardLinks_def)
  qed
  show "set (data resp) \<subseteq> rawTargets L V gu"
  proof (cases cur)
    case None
    with assms show ?thesis by (auto simp: gu_getForwardLinks_def)
  next
    case (Some p)
    obtain r g1 where g: "getLinksFromFile L V p gu = (r, g1)"
      by (cases "getLinksFromFile L V p gu")
    show ?thesis
    proof (cases r)
      case (Inl e)
      with assms Some g show ?thesis by (auto simp: gu_getForwardLinks_def)
    next
      case (Inr ls)
      with assms Some g getLinksFromFile_targets(2) [OF g, of ls] show ?thesis
        by (auto simp: gu_getForwardLinks_def)
    qed
  qed
qed

lemma scanLinks_measure:
  "scanLinks tgt path links visited queue = NotFound visited' queue' \<Longrightarrow>
   ensureMarkdownExtension ` set links \<subseteq> U \<Longrightarrow> finite U \<Longrightarrow>
   2 * card (U - visited') + length queue' \<le> 2 * card (U - visited) + length queue"
proof (induction links arbitrary: visited queue)
  case Nil
  then show ?case by simp
next
  case (Cons link links)
  let ?n = "ensureMarkdownExtension link"
  from Cons.prems(1) have ne: "?n \<noteq> tgt" by (auto simp: Let_def split: if_splits)
  show ?case
  proof (cases "?n \<in> visited")
    case True
    with Cons ne show ?thesis by (auto simp: Let_def)
  next
    case False
    with Cons.prems ne
    have "2 * card (U - visited') + length queue'
          \<le> 2 * card (U - insert ?n visited) + length (queue @ [path @ [?n]])"
      by (intro Cons.IH) (auto simp: Let_def)
    moreover have "?n \<in> U - visited" using False Cons.prems(2) by auto
    then have "card (U - insert ?n visited) < card (U - visited)"
      using Cons.prems(3)
      by (metis Diff_insert card_Diff1_less finite_Diff)
    ultimately show ?thesis by simp
  qed
qed

termination bfsLoop
proof (relation "measure (\<lambda>(L, V, tgt, queue, visited, errs, pc, gu).
                   2 * card (universe L V gu - visited) + length queue)", goal_cases)
  case 1
  show ?case by simp
next
  case (2 L V tgt queue visited errs processedCount gu path rest current pc' x linksResponse gu' errs' visited' queue')
  from 2 have g: "gu_getForwardLinks L V current gu = (linksResponse, gu')" by simp
  have sub: "universe L V gu' \<subseteq> universe L V gu"
    using gu_getForwardLinks_targets(1) [OF g] by (auto simp: universe_def)
  have links: "ensureMarkdownExtension ` set (data linksResponse) \<subseteq> universe L V gu"
    using gu_getForwardLinks_targets(2) [OF g] by (auto simp: universe_def)
  from 2 have sc: "scanLinks tgt path (data linksResponse) visited rest = NotFound visited' queue'"
    by simp
  have "2 * card (universe L V gu' - visited') + length queue'
        \<le> 2 * card (universe L V gu - visited') + length queue'"
    using sub by (simp add: card_mono Diff_mono)
  also have "\<dots> \<le> 2 * card (universe L V gu - visited) + length rest"
    using scanLinks_measure [OF sc links] by simp
  finally show ?case using 2 by simp
qed

declare bfsLoop.simps [simp del]


section \<open>Shortest path: the trivial case\<close>

text \<open>
  C10. When the two arguments have the same normal form, \<open>findShortestPath\<close> returns the
  one-element path of that normal form, no error list and an unchanged state, whatever
  the vault holds. The example asks for a document that the example vault does not have.
\<close>

theorem findShortestPath_same_document:
  "ensureMarkdownExtension s = ensureMarkdownExtension t \<Longrightarrow>
   findShortestPath L V s t gu =
     (\<lparr>data = [ensureMarkdownExtension s], errors = None,
       metadata = Some \<lparr>totalProcessed = 0, successCount = 1, errorCount = 0\<rparr>\<rparr>, gu)"
  by (simp add: findShortestPath_def)


theorem findShortestPath_same_document_witness:
  "ensureMarkdownExtension ''ghost'' = ensureMarkdownExtension ''ghost.md''
   \<and> ''ghost.md'' \<notin> set (files exampleVault)
   \<and> findShortestPath exampleLib exampleVault ''ghost'' ''ghost.md'' freshGraphUtils =
     (\<lparr>data = [''ghost.md''], errors = None,
       metadata = Some \<lparr>totalProcessed = 0, successCount = 1, errorCount = 0\<rparr>\<rparr>, freshGraphUtils)"
proof -
  have h: "ensureMarkdownExtension ''ghost'' = ensureMarkdownExtension ''ghost.md''"
    by (simp add: ensureMarkdownExtension_def endsWith_def)
  have e: "ensureMarkdownExtension ''ghost'' = ''ghost.md''"
    by (simp add: ensureMarkdownExtension_def endsWith_def)
  show ?thesis
    using findShortestPath_same_document [OF h, of exampleLib exampleVault freshGraphUtils] h e
    by (simp add: exampleVault_def)
qed



section \<open>Similarity: the edit distance table\<close>

lemma editDistance_Nil2 [simp]: "editDistance xs [] = length xs"
  by (cases xs) simp_all

lemma editDistance_sym: "editDistance xs ys = editDistance ys xs"
  by (induction xs ys rule: editDistance.induct) (simp_all add: min.commute min.left_commute eq_commute)

lemma editDistance_refl [simp]: "editDistance xs xs = 0"
  by (induction xs) simp_all

lemma rowOf_hd: "rowOf pre suf ys = editDistance (rev pre) (rev ys) # tl (rowOf pre suf ys)"
  by (cases suf) simp_all

lemma length_rowOf [simp]: "length (rowOf pre suf ys) = length suf + 1"
  by (induction suf arbitrary: pre) simp_all

lemma rowOf_last: "rowOf pre suf ys ! length suf = editDistance (rev (pre @ suf)) (rev ys)"
  by (induction suf arbitrary: pre) simp_all

lemma rowOf_Nil: "rowOf pre suf [] = [length pre..<length pre + length suf + 1]"
proof (induction suf arbitrary: pre)
  case Nil
  then show ?case by simp
next
  case (Cons a suf)
  have "[length pre..<length pre + length (a # suf) + 1]
        = length pre # [length (pre @ [a])..<length (pre @ [a]) + length suf + 1]"
    by (subst upt_rec) simp
  with Cons [of "pre @ [a]"] show ?case by simp
qed

lemma nextRow_rowOf:
  "nextRow suf c (rowOf pre suf ys) (editDistance (rev pre) (c # rev ys))
   = tl (rowOf pre suf (ys @ [c]))"
proof (induction suf arbitrary: pre)
  case Nil
  then show ?case by simp
next
  case (Cons a suf)
  let ?d0 = "editDistance (rev pre) (rev ys)"
  let ?d1 = "editDistance (rev (pre @ [a])) (rev ys)"
  let ?v = "editDistance (rev (pre @ [a])) (c # rev ys)"
  have prev: "rowOf pre (a # suf) ys = ?d0 # ?d1 # tl (rowOf (pre @ [a]) suf ys)"
    using rowOf_hd [of "pre @ [a]" suf ys] by simp
  have v: "(if c = a then ?d0
            else min (?d0 + 1) (min (editDistance (rev pre) (c # rev ys) + 1) (?d1 + 1))) = ?v"
    by simp
  have "nextRow (a # suf) c (rowOf pre (a # suf) ys) (editDistance (rev pre) (c # rev ys))
        = ?v # nextRow suf c (rowOf (pre @ [a]) suf ys) ?v"
    unfolding prev nextRow.simps list.case Let_def v
    using rowOf_hd [of "pre @ [a]" suf ys] by simp
  also have "\<dots> = ?v # tl (rowOf (pre @ [a]) suf (ys @ [c]))"
    using Cons [of "pre @ [a]"] by simp
  also have "\<dots> = rowOf (pre @ [a]) suf (ys @ [c])"
    using rowOf_hd [of "pre @ [a]" suf "ys @ [c]"] by simp
  finally show ?case by simp
qed

lemma levRows_last:
  "prev = rowOf [] str1 ys \<Longrightarrow>
   (prev # levRows str1 rest (length ys + 1) prev) ! length rest = rowOf [] str1 (ys @ rest)"
proof (induction rest arbitrary: ys prev)
  case Nil
  then show ?case by simp
next
  case (Cons c rest)
  let ?row = "(length ys + 1) # nextRow str1 c prev (length ys + 1)"
  have "nextRow str1 c prev (length ys + 1) = tl (rowOf [] str1 (ys @ [c]))"
    using nextRow_rowOf [of str1 c "[]" ys] Cons.prems by simp
  then have row: "?row = rowOf [] str1 (ys @ [c])"
    using rowOf_hd [of "[]" str1 "ys @ [c]"] by simp
  have "(?row # levRows str1 rest (length (ys @ [c]) + 1) ?row) ! length rest
        = rowOf [] str1 ((ys @ [c]) @ rest)"
    by (rule Cons.IH [OF row])
  then show ?case by (simp add: Let_def)
qed

lemma levMatrix_cell:
  "levMatrix str1 str2 ! length str2 ! length str1 = editDistance (rev str1) (rev str2)"
proof -
  have "[0..<length str1 + 1] = rowOf [] str1 []" by (simp add: rowOf_Nil)
  from levRows_last [OF this, of str2]
  have "levMatrix str1 str2 ! length str2 = rowOf [] str1 str2"
    by (simp add: levMatrix_def Let_def)
  then show ?thesis using rowOf_last [of "[]" str1 str2] by simp
qed

lemma levenshteinDistance_sym: "levenshteinDistance a b = levenshteinDistance b a"
  by (auto simp: levenshteinDistance_def levMatrix_cell editDistance_sym max.commute)

lemma levenshteinDistance_refl: "levenshteinDistance a a = 0"
  by (simp add: levenshteinDistance_def levMatrix_cell)

lemma sampleSimilarity_sym: "sampleSimilarity a b i = sampleSimilarity b a i"
  by (simp add: sampleSimilarity_def Let_def min.commute max.commute
                levenshteinDistance_sym [of "take 500 (drop _ a)"] conj_commute)

lemma calculateSampledSimilarity_sym:
  "calculateSampledSimilarity a b = calculateSampledSimilarity b a"
proof -
  have "(\<lambda>i total. total + sampleSimilarity a b i) = (\<lambda>i total. total + sampleSimilarity b a i)"
    by (simp add: sampleSimilarity_sym [of a b])
  then show ?thesis
    by (simp add: calculateSampledSimilarity_def Let_def min.commute max.commute eq_commute [of a b])
qed

text \<open>
  C9. The similarity of a string with itself is 1, in the tier that runs the edit
  distance and in the sampled tier, and the similarity of two strings does not depend
  on their order.
\<close>

theorem similarity_reflexive_symmetric:
  "calculateStringSimilarity a a = 1
   \<and> calculateSampledSimilarity a a = 1
   \<and> calculateStringSimilarity a b = calculateStringSimilarity b a"
proof (intro conjI)
  show "calculateStringSimilarity a a = 1"
    by (simp add: calculateStringSimilarity_def calculateSampledSimilarity_def
                  levenshteinDistance_refl)
  show "calculateSampledSimilarity a a = 1"
    by (simp add: calculateSampledSimilarity_def)
  show "calculateStringSimilarity a b = calculateStringSimilarity b a"
  proof (cases "length a = length b")
    case True
    have ab: "calculateStringSimilarity a b =
          (if length b = 0 then 1
           else if length b > 1000 then calculateSampledSimilarity a b
           else (real (length b) - real (levenshteinDistance b a)) / real (length b))"
      using True unfolding calculateStringSimilarity_def Let_def by simp
    have ba: "calculateStringSimilarity b a =
          (if length a = 0 then 1
           else if length a > 1000 then calculateSampledSimilarity b a
           else (real (length a) - real (levenshteinDistance a b)) / real (length a))"
      using True unfolding calculateStringSimilarity_def Let_def by simp
    show ?thesis
      unfolding ab ba True [symmetric]
      by (simp only: calculateSampledSimilarity_sym [of a b] levenshteinDistance_sym [of a b])
  next
    case False
    have less: "calculateStringSimilarity x y =
          (if length y = 0 then 1
           else if length y > 1000 then calculateSampledSimilarity x y
           else (real (length y) - real (levenshteinDistance y x)) / real (length y))"
      if "length x < length y" for x y
      using that unfolding calculateStringSimilarity_def Let_def by simp
    have greater: "calculateStringSimilarity x y =
          (if length x = 0 then 1
           else if length x > 1000 then calculateSampledSimilarity x y
           else (real (length x) - real (levenshteinDistance x y)) / real (length x))"
      if "length y < length x" for x y
      using that unfolding calculateStringSimilarity_def Let_def by simp
    from False consider "length a < length b" | "length b < length a" by linarith
    then show ?thesis
    proof cases
      case 1
      show ?thesis
        unfolding less [OF 1] greater [OF 1]
        by (simp only: calculateSampledSimilarity_sym [of a b])
    next
      case 2
      show ?thesis
        unfolding less [OF 2] greater [OF 2]
        by (simp only: calculateSampledSimilarity_sym [of a b])
    qed
  qed
qed



section \<open>Duplicates: the comparison by size\<close>
















section \<open>Shortest path: the search\<close>

subsection \<open>Walks\<close>

lemma isWalk_nonempty: "isWalk g w \<Longrightarrow> w \<noteq> []"
  by (cases w) simp_all

lemma isWalk_snoc:
  "isWalk g (p @ [n]) = (p = [] \<or> (isWalk g p \<and> n \<in> successors g (last p)))"
proof (induction p rule: isWalk.induct)
  case (1 g)
  then show ?case by simp
next
  case (2 g x)
  then show ?case by simp
next
  case (3 g x y r)
  then show ?case by auto
qed

lemma hd_snoc: "p \<noteq> [] \<Longrightarrow> hd (p @ [n]) = hd p"
  by (cases p) simp_all

lemma isWalk_closed:
  "isWalk g w \<Longrightarrow> hd w \<in> S \<Longrightarrow> \<forall>v \<in> S. successors g v \<subseteq> S \<Longrightarrow> last w \<in> S"
proof (induction w rule: isWalk.induct)
  case (1 g)
  then show ?case by simp
next
  case (2 g x)
  then show ?case by simp
next
  case (3 g x y r)
  from "3.prems" have "y \<in> S" by auto
  with 3 show ?case by simp
qed

lemma sorted_map_const: "sorted (map (\<lambda>x. c) xs)"
  by (induction xs) simp_all

lemma walk_split:
  assumes "isWalk g w" "2 \<le> length w"
  obtains w' v where "w = w' @ [v]" "isWalk g w'" "v \<in> successors g (last w')" "hd w' = hd w"
proof -
  from assms(2) have "w \<noteq> []" by auto
  then obtain w' v where w: "w = w' @ [v]" by (metis rev_exhaust)
  with assms(2) have ne: "w' \<noteq> []" by auto
  with assms(1) w have "isWalk g w'" "v \<in> successors g (last w')"
    by (simp_all add: isWalk_snoc)
  moreover have "hd w' = hd w" using w ne by (simp add: hd_snoc)
  ultimately show ?thesis using that w by blast
qed

subsection \<open>The scan of the links of one document\<close>

lemma scanLinks_Found:
  "scanLinks tgt path links vis Q = Found p \<Longrightarrow>
   p = path @ [tgt] \<and> tgt \<in> set (map ensureMarkdownExtension links)"
  by (induction links arbitrary: vis Q) (auto simp: Let_def split: if_splits)

lemma scanLinks_NotFound:
  "scanLinks tgt path links vis Q = NotFound vis' Q' \<Longrightarrow>
   tgt \<notin> set (map ensureMarkdownExtension links)
   \<and> vis' = vis \<union> set (map ensureMarkdownExtension links)
   \<and> (\<exists>new. Q' = Q @ map (\<lambda>n. path @ [n]) new
             \<and> set new = set (map ensureMarkdownExtension links) - vis)"
proof (induction links arbitrary: vis Q)
  case Nil
  then show ?case by simp
next
  case (Cons link links)
  let ?n = "ensureMarkdownExtension link"
  let ?N = "set (map ensureMarkdownExtension links)"
  from Cons.prems have ne: "?n \<noteq> tgt" by (auto simp: Let_def split: if_splits)
  show ?case
  proof (cases "?n \<in> vis")
    case True
    with Cons.prems ne have "scanLinks tgt path links vis Q = NotFound vis' Q'"
      by (simp add: Let_def)
    from Cons.IH [OF this] obtain new where
      "tgt \<notin> ?N" "vis' = vis \<union> ?N" "Q' = Q @ map (\<lambda>n. path @ [n]) new" "set new = ?N - vis"
      by blast
    with True ne show ?thesis by (intro conjI exI [of _ new]) auto
  next
    case False
    with Cons.prems ne
    have "scanLinks tgt path links (insert ?n vis) (Q @ [path @ [?n]]) = NotFound vis' Q'"
      by (simp add: Let_def)
    from Cons.IH [OF this] obtain new where
      n: "tgt \<notin> ?N" "vis' = insert ?n vis \<union> ?N"
         "Q' = (Q @ [path @ [?n]]) @ map (\<lambda>n. path @ [n]) new" "set new = ?N - insert ?n vis"
      by blast
    with False ne show ?thesis by (intro conjI exI [of _ "?n # new"]) auto
  qed
qed

subsection \<open>The invariant\<close>

lemma bfsInv_init: "src \<noteq> tgt \<Longrightarrow> bfsInv g src tgt [[src]] {src}"
proof -
  assume ne: "src \<noteq> tgt"
  have 1: "last w = src" if "isWalk g w" "hd w = src" "length w \<le> 1" for w
    using that by (cases w) auto
  have 2: "1 \<le> length w" if "isWalk g w" for w
    using that by (cases w) auto
  show ?thesis
    unfolding bfsInv_def using ne 1 2 by (auto simp: Suc_le_eq)
qed

lemma bfsInv_exit:
  assumes "bfsInv g src tgt [] vis"
  shows "\<not> walkFromTo g src tgt w"
proof
  assume w: "walkFromTo g src tgt w"
  from assms have closed: "\<forall>v \<in> vis. successors g v \<subseteq> vis" and s: "src \<in> vis" and t: "tgt \<notin> vis"
    by (simp_all add: bfsInv_def)
  from w have "isWalk g w" "hd w \<in> vis" using s by (simp_all add: walkFromTo_def)
  from isWalk_closed [OF this closed] w t show False by (simp add: walkFromTo_def)
qed

lemma bfsInv_found:
  assumes inv: "bfsInv g src tgt (path # rest) vis"
    and t: "tgt \<in> successors g (last path)"
  shows "walkFromTo g src tgt (path @ [tgt])"
    and "walkFromTo g src tgt w \<Longrightarrow> length (path @ [tgt]) \<le> length w"
proof -
  from inv have p: "isWalk g path" "hd path = src" and nt: "tgt \<notin> vis"
    and g: "\<And>w. isWalk g w \<Longrightarrow> hd w = src \<Longrightarrow> length w \<le> length path \<Longrightarrow> last w \<in> vis"
    by (simp_all add: bfsInv_def)
  from p(1) have ne: "path \<noteq> []" by (rule isWalk_nonempty)
  show "walkFromTo g src tgt (path @ [tgt])"
    using p t ne by (simp add: walkFromTo_def isWalk_snoc hd_snoc)
  show "length (path @ [tgt]) \<le> length w" if "walkFromTo g src tgt w"
  proof (rule ccontr)
    assume "\<not> length (path @ [tgt]) \<le> length w"
    then have "length w \<le> length path" by simp
    with that g [of w] have "tgt \<in> vis" by (auto simp: walkFromTo_def)
    with nt show False by simp
  qed
qed

lemma bfsInv_step:
  assumes inv: "bfsInv g src tgt (path # rest) vis"
    and nt: "tgt \<notin> successors g (last path)"
    and vis': "vis' = vis \<union> successors g (last path)"
    and Q': "Q' = rest @ map (\<lambda>n. path @ [n]) new"
    and new: "set new = successors g (last path) - vis"
  shows "bfsInv g src tgt Q' vis'"
proof -
  let ?N = "successors g (last path)"
  let ?d = "length path"
  from inv have a: "isWalk g path" "hd path = src" "\<And>p. p \<in> set rest \<Longrightarrow> isWalk g p \<and> hd p = src"
    and b: "src \<in> vis" "tgt \<notin> vis"
    and c: "last path \<in> vis" "last ` set rest \<subseteq> vis"
    and d: "\<And>v. v \<in> vis \<Longrightarrow> v \<noteq> last path \<Longrightarrow> v \<notin> last ` set rest \<Longrightarrow> successors g v \<subseteq> vis"
    and e: "sorted (map length rest)" "\<And>q. q \<in> set rest \<Longrightarrow> ?d \<le> length q \<and> length q \<le> ?d + 1"
    and g: "\<And>w. isWalk g w \<Longrightarrow> hd w = src \<Longrightarrow> length w \<le> ?d \<Longrightarrow> last w \<in> vis"
    and h: "\<And>q w. q \<in> set rest \<Longrightarrow> isWalk g w \<Longrightarrow> hd w = src \<Longrightarrow> last w = last q
              \<Longrightarrow> length q \<le> length w"
    by (auto simp: bfsInv_def)
  from a(1) have ne: "path \<noteq> []" by (rule isWalk_nonempty)
  have setQ: "set Q' = set rest \<union> (\<lambda>n. path @ [n]) ` set new" by (simp add: Q')
  have lasts: "last ` set Q' = last ` set rest \<union> set new" by (auto simp: setQ image_Un image_image)
  have a': "\<forall>p \<in> set Q'. isWalk g p \<and> hd p = src"
    using a ne new by (auto simp: setQ isWalk_snoc hd_snoc)
  have b': "src \<in> vis'" "tgt \<notin> vis'" using b nt by (simp_all add: vis')
  have c': "last ` set Q' \<subseteq> vis'" using c new by (auto simp: lasts vis')
  have d': "\<forall>v \<in> vis' - last ` set Q'. successors g v \<subseteq> vis'"
  proof
    fix v assume v: "v \<in> vis' - last ` set Q'"
    then have vv: "v \<in> vis" and vr: "v \<notin> last ` set rest"
      using new by (auto simp: lasts vis')
    show "successors g v \<subseteq> vis'"
    proof (cases "v = last path")
      case True
      then show ?thesis by (simp add: vis')
    next
      case False
      from d [OF vv False vr] show ?thesis by (auto simp: vis')
    qed
  qed
  have len: "?d \<le> length q \<and> length q \<le> ?d + 1" if "q \<in> set Q'" for q
    using that e(2) by (auto simp: setQ)
  have e1: "sorted (map length Q')"
    using e by (auto simp: Q' sorted_append o_def sorted_map_const)
  have hdQ: "hd Q' \<in> set Q'" if "Q' \<noteq> []" using that by simp
  have e2: "\<forall>q \<in> set Q'. length q \<le> length (hd Q') + 1"
  proof
    fix q assume q: "q \<in> set Q'"
    then have "Q' \<noteq> []" by auto
    from len [OF hdQ [OF this]] len [OF q] show "length q \<le> length (hd Q') + 1" by simp
  qed
  have hd_min: "length (hd Q') \<le> length q" if "q \<in> set Q'" for q
  proof -
    from that have neq: "Q' \<noteq> []" by auto
    then obtain x xs where x: "Q' = x # xs" by (cases Q') auto
    with e1 that show ?thesis by auto
  qed
  have h': "\<forall>q \<in> set Q'. \<forall>w. isWalk g w \<and> hd w = src \<and> last w = last q \<longrightarrow> length q \<le> length w"
  proof (intro ballI allI impI)
    fix q w assume q: "q \<in> set Q'" and w: "isWalk g w \<and> hd w = src \<and> last w = last q"
    show "length q \<le> length w"
    proof (cases "q \<in> set rest")
      case True
      with h w show ?thesis by blast
    next
      case False
      with q obtain n where n: "q = path @ [n]" "n \<in> set new" by (auto simp: setQ)
      show ?thesis
      proof (rule ccontr)
        assume "\<not> length q \<le> length w"
        with n have "length w \<le> ?d" by simp
        with g [of w] w n have "n \<in> vis" by simp
        with n(2) new show False by simp
      qed
    qed
  qed
  have f': "\<forall>w. isWalk g w \<and> hd w = src \<and> Q' \<noteq> [] \<and> length w < length (hd Q')
             \<longrightarrow> last w \<in> vis' - last ` set Q'"
  proof (intro allI impI)
    fix w assume w: "isWalk g w \<and> hd w = src \<and> Q' \<noteq> [] \<and> length w < length (hd Q')"
    with len [OF hdQ] have "length w \<le> ?d" by simp
    with g [of w] w have 1: "last w \<in> vis'" by (simp add: vis')
    have "last w \<notin> last ` set Q'"
    proof
      assume "last w \<in> last ` set Q'"
      then obtain q where q: "q \<in> set Q'" "last w = last q" by auto
      with h' w have "length q \<le> length w" by blast
      with hd_min [OF q(1)] w show False by simp
    qed
    with 1 show "last w \<in> vis' - last ` set Q'" by simp
  qed
  have g': "\<forall>w. isWalk g w \<and> hd w = src \<and> Q' \<noteq> [] \<and> length w \<le> length (hd Q') \<longrightarrow> last w \<in> vis'"
  proof (intro allI impI)
    fix w assume w: "isWalk g w \<and> hd w = src \<and> Q' \<noteq> [] \<and> length w \<le> length (hd Q')"
    show "last w \<in> vis'"
    proof (cases "length w \<le> ?d")
      case True
      with g [of w] w show ?thesis by (simp add: vis')
    next
      case False
      with w len [OF hdQ] have lw: "length w = ?d + 1" "length (hd Q') = ?d + 1" by auto
      from ne lw have "2 \<le> length w" by (cases path) auto
      with w obtain w' v where s: "w = w' @ [v]" "isWalk g w'" "v \<in> successors g (last w')"
          "hd w' = hd w"
        using walk_split [of g w] by blast
      with lw have "length w' < length (hd Q')" by simp
      with f' s w have "last w' \<in> vis' - last ` set Q'" by auto
      with d' s(3) have "v \<in> vis'" by blast
      with s(1) show ?thesis by simp
    qed
  qed
  show ?thesis
    unfolding bfsInv_def using a' b' c' d' e1 e2 f' g' h' by blast
qed


subsection \<open>The links that the search is given\<close>

lemma ensureMarkdownExtension_idem [simp]:
  "ensureMarkdownExtension (ensureMarkdownExtension p) = ensureMarkdownExtension p"
  by (simp add: ensureMarkdownExtension_def endsWith_def)

lemma vaultLinks_normal [simp]:
  "vaultLinks L V (ensureMarkdownExtension p) = vaultLinks L V p"
  by (simp add: vaultLinks_def)

text \<open>
  When the first pass completes, the link map holds for every document of the list the
  links computed from its content, and what it held before for every other name.
\<close>

lemma firstPass_links:
  "firstPass L V fs (ns, es, lc, p) = (None, ns', es', lc', p') \<Longrightarrow>
   jsmap_get lc' d =
     (if d \<in> set fs
      then Some (case readFile V d of
                   Inr content \<Rightarrow> fst (processLinks L d (extractAllLinks content) ([], []))
                 | Inl e \<Rightarrow> [])
      else jsmap_get lc d)"
proof (induction fs arbitrary: ns es lc p)
  case Nil
  then show ?case by simp
next
  case (Cons f fs)
  show ?case
  proof (cases "docError L V p f")
    case (Some e)
    from firstPass_fails [OF Some] Cons.prems show ?thesis by simp
  next
    case None
    from firstPass_continues [OF None, of fs ns es lc]
    obtain content node where rd: "readFile V f = Inr content"
      and step: "firstPass L V (f # fs) (ns, es, lc, p) =
         firstPass L V fs
           (jsmap_set f node ns,
            snd (processLinks L f (extractAllLinks content) ([], es)),
            jsmap_set f (fst (processLinks L f (extractAllLinks content) ([], es))) lc,
            afterDoc L V p f)"
      by blast
    let ?out = "fst (processLinks L f (extractAllLinks content) ([], []))"
    have out: "fst (processLinks L f (extractAllLinks content) ([], es)) = ?out"
      by (rule processLinks_fst)
    from Cons.prems step
    have "firstPass L V fs
           (jsmap_set f node ns,
            snd (processLinks L f (extractAllLinks content) ([], es)),
            jsmap_set f ?out lc,
            afterDoc L V p f) = (None, ns', es', lc', p')"
      by (simp add: out)
    from Cons.IH [OF this]
    have "jsmap_get lc' d =
      (if d \<in> set fs
       then Some (case readFile V d of
                    Inr content \<Rightarrow> fst (processLinks L d (extractAllLinks content) ([], []))
                  | Inl e \<Rightarrow> [])
       else jsmap_get (jsmap_set f ?out lc) d)" .
    then show ?thesis using rd by (auto simp: jsmap_get_set)
  qed
qed

text \<open>
  A build that meets no error leaves in the link map the forward links of every
  document, and a map that is empty only when the vault is.
\<close>

lemma buildLinkGraph_in_step:
  assumes "docsOk L V (parser lp) (files V)"
  obtains g lp' where "buildLinkGraph L V lp = (Inr g, lp')"
    and "\<And>p. lookupLinks (linkCache lp') (ensureMarkdownExtension p) = vaultLinks L V p"
    and "linkCache lp' = [] \<Longrightarrow> files V = []"
proof -
  have "nodeKeys []" by (simp add: nodeKeys_def)
  from firstPass_ok [OF assms this, of "[]" "[]"]
  obtain ns es lc where
    fp: "firstPass L V (files V) ([], [], [], parser lp)
         = (None, ns, es, lc, afterDocs L V (parser lp) (files V))"
    by auto
  note get = firstPass_links [OF fp]
  obtain g lp' where b: "buildLinkGraph L V lp = (Inr g, lp')" and lc: "linkCache lp' = lc"
    using fp by (simp add: buildLinkGraph_def Let_def)
  have "lookupLinks (linkCache lp') (ensureMarkdownExtension p) = vaultLinks L V p" for p
    unfolding lc lookupLinks_def vaultLinks_def Let_def get
    by (simp add: jsmap_get_def)
  moreover have "files V = []" if "linkCache lp' = []"
  proof (rule ccontr)
    assume "files V \<noteq> []"
    then have "hd (files V) \<in> set (files V)" by simp
    with get [of "hd (files V)"] have "jsmap_get lc (hd (files V)) \<noteq> None" by simp
    with that lc show False by (simp add: jsmap_get_def)
  qed
  ultimately show ?thesis using b that by blast
qed

lemma getLinksFromFile_in_step:
  assumes step: "linksInStep L V gu" and call: "getLinksFromFile L V p gu = (r, gu')"
  shows "r = Inr (vaultLinks L V p) \<and> linksInStep L V gu'"
proof -
  let ?n = "ensureMarkdownExtension p"
  let ?lp = "linkParser gu"
  from step have own: "\<And>q links. jsmap_get (gu_linkCache gu) (ensureMarkdownExtension q) = Some links
                         \<Longrightarrow> links = vaultLinks L V q"
    by (simp add: linksInStep_def)
  show ?thesis
  proof (cases "jsmap_get (gu_linkCache gu) ?n")
    case (Some links)
    with call own [OF Some] step show ?thesis by (simp add: getLinksFromFile_def)
  next
    case None
    have "\<exists>lp'. lp_getForwardLinks L V ?n ?lp = (Inr (vaultLinks L V p), lp')
               \<and> (if length (linkCache lp') = 0 then docsOk L V (parser lp') (files V)
                   else \<forall>q. lookupLinks (linkCache lp') (ensureMarkdownExtension q)
                              = vaultLinks L V q)"
    proof (cases "length (linkCache ?lp) = 0")
      case True
      with step have ok: "docsOk L V (parser ?lp) (files V)" by (simp add: linksInStep_def)
      from buildLinkGraph_in_step [OF ok]
      obtain g lp' where b: "buildLinkGraph L V ?lp = (Inr g, lp')"
        and l: "\<And>q. lookupLinks (linkCache lp') (ensureMarkdownExtension q) = vaultLinks L V q"
        and e: "linkCache lp' = [] \<Longrightarrow> files V = []"
        by blast
      have "lp_getForwardLinks L V ?n ?lp = (Inr (vaultLinks L V p), lp')"
        using True b l [of p] by (simp add: lp_getForwardLinks_def)
      moreover have "docsOk L V (parser lp') (files V)" if "length (linkCache lp') = 0"
        using e that by simp
      ultimately show ?thesis using l by auto
    next
      case False
      with step have l: "\<And>q. lookupLinks (linkCache ?lp) (ensureMarkdownExtension q)
                               = vaultLinks L V q"
        by (simp add: linksInStep_def)
      have "lp_getForwardLinks L V ?n ?lp = (Inr (vaultLinks L V p), ?lp)"
        using False l [of p] by (simp add: lp_getForwardLinks_def)
      with False l show ?thesis by auto
    qed
    then obtain lp' where
      fwd: "lp_getForwardLinks L V ?n ?lp = (Inr (vaultLinks L V p), lp')"
      and map': "if length (linkCache lp') = 0 then docsOk L V (parser lp') (files V)
                 else \<forall>q. lookupLinks (linkCache lp') (ensureMarkdownExtension q) = vaultLinks L V q"
      by blast
    from call None fwd
    have r: "r = Inr (vaultLinks L V p)"
      and gu': "gu' = gu\<lparr>gu_linkCache := jsmap_set ?n (vaultLinks L V p) (gu_linkCache gu),
                         linkParser := lp'\<rparr>"
      by (simp_all add: getLinksFromFile_def)
    have own': "links = vaultLinks L V q"
      if "jsmap_get (gu_linkCache gu') (ensureMarkdownExtension q) = Some links" for q links
    proof (cases "ensureMarkdownExtension q = ?n")
      case True
      then have "vaultLinks L V q = vaultLinks L V p"
        by (metis vaultLinks_normal)
      with that True show ?thesis by (simp add: gu' jsmap_get_set)
    next
      case False
      with that have "jsmap_get (gu_linkCache gu) (ensureMarkdownExtension q) = Some links"
        by (simp add: gu' jsmap_get_set)
      then show ?thesis by (rule own)
    qed
    have "linksInStep L V gu'"
      unfolding linksInStep_def using own' map' by (auto simp: gu')
    with r show ?thesis by simp
  qed
qed

lemma gu_getForwardLinks_in_step:
  assumes "linksInStep L V gu" and "gu_getForwardLinks L V (Some p) gu = (resp, gu')"
  shows "data resp = vaultLinks L V p" "errors resp = None" "linksInStep L V gu'"
proof -
  obtain r g1 where c: "getLinksFromFile L V p gu = (r, g1)"
    by (cases "getLinksFromFile L V p gu")
  from getLinksFromFile_in_step [OF assms(1) c]
  have r: "r = Inr (vaultLinks L V p)" and g: "linksInStep L V g1" by simp_all
  from assms(2) c r have "resp = \<lparr>data = vaultLinks L V p, errors = None,
       metadata = Some \<lparr>totalProcessed = 1, successCount = 1, errorCount = 0\<rparr>\<rparr>" "gu' = g1"
    by (simp_all add: gu_getForwardLinks_def)
  with g show "data resp = vaultLinks L V p" "errors resp = None" "linksInStep L V gu'"
    by simp_all
qed

subsection \<open>The loop\<close>

lemma bfsLoop_correct:
  "linksInStep L V gu \<Longrightarrow> bfsInv (vaultLinks L V) src tgt queue visited \<Longrightarrow>
   shortestOrNone (vaultLinks L V) src tgt
     (data (fst (bfsLoop L V tgt (queue, visited, errs, pc, gu))))
   \<and> (errs = [] \<longrightarrow> errors (fst (bfsLoop L V tgt (queue, visited, errs, pc, gu))) = None)
   \<and> linksInStep L V (snd (bfsLoop L V tgt (queue, visited, errs, pc, gu)))"
proof (induction L V tgt "(queue, visited, errs, pc, gu)"
       arbitrary: queue visited errs pc gu rule: bfsLoop.induct)
  case (1 L V tgt queue visited errs pc gu)
  let ?g = "vaultLinks L V"
  note step = "1.prems"(1) and inv = "1.prems"(2)
  show ?case
  proof (cases queue)
    case Nil
    with inv have "\<not> walkFromTo ?g src tgt w" for w
      using bfsInv_exit by blast
    with Nil step show ?thesis by (simp add: bfsLoop.simps shortestOrNone_def mkResponse_def)
  next
    case (Cons path rest)
    from inv Cons have "isWalk ?g path" by (simp add: bfsInv_def)
    then have ne: "path \<noteq> []" by (rule isWalk_nonempty)
    obtain resp gu' where call: "gu_getForwardLinks L V (Some (last path)) gu = (resp, gu')"
      by (cases "gu_getForwardLinks L V (Some (last path)) gu")
    note o = gu_getForwardLinks_in_step [OF step call]
    have succ: "set (map ensureMarkdownExtension (data resp)) = successors ?g (last path)"
      by (simp add: o(1) successors_def)
    show ?thesis
    proof (cases "scanLinks tgt path (data resp) visited rest")
      case (Found p)
      from scanLinks_Found [OF Found] succ
      have p: "p = path @ [tgt]" and t: "tgt \<in> successors ?g (last path)" by simp_all
      from bfsInv_found [OF inv [unfolded Cons] t]
      have "shortestOrNone ?g src tgt p"
        unfolding shortestOrNone_def p by auto
      moreover have eq: "bfsLoop L V tgt (queue, visited, errs, pc, gu)
                     = (mkResponse p errs (pc + 1), gu')"
        using Cons ne call Found o(2) by (simp add: bfsLoop.simps Let_def)
      ultimately show ?thesis unfolding eq using o(3) by (simp add: mkResponse_def)
    next
      case (NotFound visited' queue')
      from scanLinks_NotFound [OF NotFound] succ obtain new where
        s: "tgt \<notin> successors ?g (last path)" "visited' = visited \<union> successors ?g (last path)"
           "queue' = rest @ map (\<lambda>n. path @ [n]) new"
           "set new = successors ?g (last path) - visited"
        by auto
      have inv': "bfsInv ?g src tgt queue' visited'"
        by (rule bfsInv_step [OF inv [unfolded Cons] s])
      have unfold: "bfsLoop L V tgt (queue, visited, errs, pc, gu)
                     = bfsLoop L V tgt (queue', visited', errs, pc + 1, gu')"
        using Cons ne call NotFound o(2) by (simp add: bfsLoop.simps Let_def)
      have "shortestOrNone ?g src tgt
              (data (fst (bfsLoop L V tgt (queue', visited', errs, pc + 1, gu'))))
            \<and> (errs = [] \<longrightarrow>
                 errors (fst (bfsLoop L V tgt (queue', visited', errs, pc + 1, gu'))) = None)
            \<and> linksInStep L V (snd (bfsLoop L V tgt (queue', visited', errs, pc + 1, gu')))"
        using Cons ne call call [symmetric] NotFound o(2)
        by (intro "1.hyps" [OF _ _ _ _ _ _ _ o(3) inv']) (simp_all add: Let_def)
      then show ?thesis unfolding unfold .
    qed
  qed
qed

text \<open>
  The search on caches that are in step with the vault, measured against the forward
  links of the vault: when no walk leads from the source to the target the result is the
  empty list; when one does, the result is a walk from the source to the target, and no
  walk from the source to the target has fewer documents; there is no error entry, and
  the caches are in step again afterwards, so that the same holds for the next search.
\<close>

lemma findShortestPath_in_step:
  assumes "linksInStep L V gu"
  shows "shortestOrNone (vaultLinks L V) (ensureMarkdownExtension s) (ensureMarkdownExtension t)
           (data (fst (findShortestPath L V s t gu)))"
    and "errors (fst (findShortestPath L V s t gu)) = None"
    and "linksInStep L V (snd (findShortestPath L V s t gu))"
proof -
  let ?g = "vaultLinks L V"
  let ?s = "ensureMarkdownExtension s"
  let ?t = "ensureMarkdownExtension t"
  let ?r = "findShortestPath L V s t gu"
  have "shortestOrNone ?g ?s ?t (data (fst ?r)) \<and> errors (fst ?r) = None
        \<and> linksInStep L V (snd ?r)"
  proof (cases "?s = ?t")
    case True
    have "walkFromTo ?g ?s ?t [?s]" using True by (simp add: walkFromTo_def)
    moreover have "1 \<le> length w" if "walkFromTo ?g ?s ?t w" for w
      using that by (cases w) (simp_all add: walkFromTo_def)
    moreover have "?r = (\<lparr>data = [?s], errors = None,
        metadata = Some \<lparr>totalProcessed = 0, successCount = 1, errorCount = 0\<rparr>\<rparr>, gu)"
      using True by (simp add: findShortestPath_def)
    ultimately show ?thesis unfolding shortestOrNone_def using assms by auto
  next
    case False
    then have r: "?r = bfsLoop L V ?t ([[?s]], {?s}, [], 0, gu)"
      by (simp add: findShortestPath_def Let_def)
    from bfsLoop_correct [OF assms bfsInv_init [OF False], of "[]" 0]
    show ?thesis unfolding r by simp
  qed
  then show "shortestOrNone ?g ?s ?t (data (fst ?r))" "errors (fst ?r) = None"
    "linksInStep L V (snd ?r)"
    by simp_all
qed

text \<open>New objects over a vault whose documents are all processed are in step with it.\<close>

lemma freshGraphUtils_in_step:
  "docsOk L V \<lparr>matterCalls = []\<rparr> (files V) \<Longrightarrow> linksInStep L V freshGraphUtils"
  by (simp add: linksInStep_def freshGraphUtils_def jsmap_get_def)

text \<open>
  The three documents of the example: the path from \<open>A\<close> to \<open>C\<close> goes through \<open>B\<close>, and
  nothing leads from \<open>C\<close> to \<open>A\<close>.
\<close>

lemma example_shortest_path:
  "fst (findShortestPath exampleLib exampleVault ''A'' ''C.md'' freshGraphUtils)
   = \<lparr>data = [''A.md'', ''B.md'', ''C.md''], errors = None,
      metadata = Some \<lparr>totalProcessed = 2, successCount = 2, errorCount = 0\<rparr>\<rparr>"
  "fst (findShortestPath exampleLib exampleVault ''C'' ''A'' freshGraphUtils)
   = \<lparr>data = [], errors = None,
      metadata = Some \<lparr>totalProcessed = 1, successCount = 1, errorCount = 0\<rparr>\<rparr>"
  by (simp_all add: findShortestPath_def bfsLoop.simps gu_getForwardLinks_def getLinksFromFile_def
      lp_getForwardLinks_def exampleVault_build exampleLinkParser_def freshGraphUtils_def
      lookupLinks_def jsmap_get_def ensureMarkdownExtension_def endsWith_def
      mkResponse_def Let_def)

subsection \<open>A search after a build that failed\<close>

lemma brokenVault_build:
  "buildLinkGraph exampleLib brokenVault freshLinkParser =
     (Inl (enoent ''B.md''),
      \<lparr>linkCache = [(''A.md'', [''C.md''])], backlinkCache = [],
       parser = \<lparr>matterCalls = [''Start at [[C]]'']\<rparr>\<rparr>)"
  by code_simp

lemma brokenVault_links:
  "vaultLinks exampleLib brokenVault ''C.md'' = [''D.md'']"
  by code_simp

text \<open>
  C4 fails after a build that failed. In the vault of four documents, \<open>C\<close> links to \<open>D\<close>
  and both can be read, but \<open>B\<close> cannot. The first search from \<open>C\<close> to \<open>D\<close> on new
  objects starts a build, which stops at \<open>B\<close>; the search reports that error and finds
  nothing. The build has left the links of \<open>A\<close> alone in the link map, and because the
  map is no longer empty no later query builds again: the second search finds in it no
  entry for \<open>C\<close>, and answers that there is no path, without any error.
\<close>

theorem search_after_failed_build:
  "vaultLinks exampleLib brokenVault ''C.md'' = [''D.md'']
   \<and> isWalk (vaultLinks exampleLib brokenVault) [''C.md'', ''D.md'']
   \<and> fst (findShortestPath exampleLib brokenVault ''C'' ''D'' freshGraphUtils)
       = \<lparr>data = [],
          errors = Some [\<lparr>ge_path = Some ''C.md'', ge_operation = Some ''getForwardLinks'',
                          ge_error = ''Failed to get links from file: Error: ENOENT: ''
                                     @ ''no such file or directory, open B.md''\<rparr>],
          metadata = Some \<lparr>totalProcessed = 1, successCount = 0, errorCount = 1\<rparr>\<rparr>
   \<and> linkCache (linkParser (snd (findShortestPath exampleLib brokenVault ''C'' ''D'' freshGraphUtils)))
       = [(''A.md'', [''C.md''])]
   \<and> fst (findShortestPath exampleLib brokenVault ''C'' ''D''
            (snd (findShortestPath exampleLib brokenVault ''C'' ''D'' freshGraphUtils)))
       = \<lparr>data = [], errors = None,
          metadata = Some \<lparr>totalProcessed = 1, successCount = 1, errorCount = 0\<rparr>\<rparr>"
proof -
  have n: "ensureMarkdownExtension ''C'' = ''C.md''" "ensureMarkdownExtension ''D'' = ''D.md''"
    "ensureMarkdownExtension ''C.md'' = ''C.md''" "ensureMarkdownExtension ''D.md'' = ''D.md''"
    by (simp_all add: ensureMarkdownExtension_def endsWith_def)
  have first: "findShortestPath exampleLib brokenVault ''C'' ''D'' freshGraphUtils
     = (\<lparr>data = [],
         errors = Some [\<lparr>ge_path = Some ''C.md'', ge_operation = Some ''getForwardLinks'',
                         ge_error = ''Failed to get links from file: Error: ENOENT: ''
                                    @ ''no such file or directory, open B.md''\<rparr>],
         metadata = Some \<lparr>totalProcessed = 1, successCount = 0, errorCount = 1\<rparr>\<rparr>,
        \<lparr>gu_linkCache = [],
         linkParser = \<lparr>linkCache = [(''A.md'', [''C.md''])], backlinkCache = [],
                        parser = \<lparr>matterCalls = [''Start at [[C]]'']\<rparr>\<rparr>\<rparr>)"
    by (simp add: findShortestPath_def n bfsLoop.simps gu_getForwardLinks_def getLinksFromFile_def
        lp_getForwardLinks_def brokenVault_build freshGraphUtils_def jsmap_get_def
        mkResponse_def error_toString_def enoent_def Let_def)
  have second: "fst (findShortestPath exampleLib brokenVault ''C'' ''D''
        \<lparr>gu_linkCache = [],
         linkParser = \<lparr>linkCache = [(''A.md'', [''C.md''])], backlinkCache = [],
                        parser = \<lparr>matterCalls = [''Start at [[C]]'']\<rparr>\<rparr>\<rparr>)
       = \<lparr>data = [], errors = None,
          metadata = Some \<lparr>totalProcessed = 1, successCount = 1, errorCount = 0\<rparr>\<rparr>"
    by (simp add: findShortestPath_def n bfsLoop.simps gu_getForwardLinks_def getLinksFromFile_def
        lp_getForwardLinks_def lookupLinks_def jsmap_get_def mkResponse_def Let_def)
  have walk: "isWalk (vaultLinks exampleLib brokenVault) [''C.md'', ''D.md'']"
    by (simp add: successors_def brokenVault_links n)
  from first second walk show ?thesis by (simp add: brokenVault_links)
qed


end
